theory Spec2Isabelle
  imports Complex_Main "HOL-Library.Sublist"
begin

section \<open>Scope\<close>

text \<open>
  The source holds two drafts of \<open>extractTextFromPDF\<close>: one builds positioned markup
  (layout mode), the other plain text (text mode). Each reads the file, has the engine
  load the document, and then loops over the pages. The embedding starts at the loaded
  document \<open>pdf\<close> and covers the loop and the \<open>resolve\<close> or \<open>reject\<close> that ends it.
  An \<open>await\<close> is a call that returns a value or a rejection before the next statement
  runs; a second embedding of the loops logs the issue and the settlement of each call
  separately. Strings are lists of characters.
\<close>

section \<open>Values of the host language\<close>

text \<open>
  The component is JavaScript. Its numbers are the host's Number values; the code only
  subtracts two of them and converts them to text inside template literals. Both
  operations belong to the host, so the embedding takes them as parameters: a record of
  the binary minus, the number-to-string conversion and the value \<open>NaN\<close> that
  \<open>ToNumber(undefined)\<close> yields. Every theorem below holds for any such record.
\<close>

record 'n numops =
  nsub :: "'n \<Rightarrow> 'n \<Rightarrow> 'n"
  nshow :: "'n \<Rightarrow> string"
  nnan :: 'n

text \<open>A value read from an array of numbers: a number, or \<open>undefined\<close> out of range.\<close>

datatype 'n jsval = JNum 'n | JUndefined

definition js_index :: "'n list \<Rightarrow> nat \<Rightarrow> 'n jsval" where
  "js_index xs i = (if i < length xs then JNum (xs ! i) else JUndefined)"

fun to_number :: "'n numops \<Rightarrow> 'n jsval \<Rightarrow> 'n" where
  "to_number N (JNum n) = n"
| "to_number N JUndefined = nnan N"

fun to_string :: "'n numops \<Rightarrow> 'n jsval \<Rightarrow> string" where
  "to_string N (JNum n) = nshow N n"
| "to_string N JUndefined = ''undefined''"

text \<open>\<open>Array.prototype.join\<close> on an array of strings.\<close>

fun join :: "string \<Rightarrow> string list \<Rightarrow> string" where
  "join sep [] = []"
| "join sep [x] = x"
| "join sep (x # y # ys) = x @ sep @ join sep (y # ys)"

section \<open>The engine's data, as the component reads it\<close>

record 'n viewport =
  width :: 'n
  height :: 'n

record 'n text_item =
  str :: string
  transform :: "'n list"
  fontName :: string

text \<open>
  A page answers \<open>getViewport({scale})\<close> with a viewport and \<open>getTextContent()\<close> with
  the items of the page or a rejection. A document has a page count and answers
  \<open>getPage(i)\<close> with a page or a rejection. Rejections carry a value of the engine's
  choice, of type \<open>'e\<close>.
\<close>

record ('n, 'e) page =
  getViewport :: "rat \<Rightarrow> 'n viewport"
  getTextContent :: "'e + 'n text_item list"

record ('n, 'e) document =
  numPages :: nat
  getPage :: "nat \<Rightarrow> 'e + ('n, 'e) page"

section \<open>Engine calls as effects\<close>

text \<open>
  The state threaded through an extraction: the loaded document and the log of the
  engine calls issued so far, oldest first. A call on a page is logged with the index
  the page was fetched under.
\<close>

datatype call = GetPage nat | GetViewport nat rat | GetTextContent nat

record ('n, 'e) world =
  pdf :: "('n, 'e) document"
  calls :: "call list"

definition pdf_getPage ::
  "nat \<Rightarrow> ('n, 'e) world \<Rightarrow> ('e + ('n, 'e) page) \<times> ('n, 'e) world" where
  "pdf_getPage i w = (getPage (pdf w) i, w\<lparr>calls := calls w @ [GetPage i]\<rparr>)"

definition page_getViewport ::
  "nat \<Rightarrow> ('n, 'e) page \<Rightarrow> rat \<Rightarrow> ('n, 'e) world \<Rightarrow> 'n viewport \<times> ('n, 'e) world" where
  "page_getViewport i page scale w =
     (getViewport page scale, w\<lparr>calls := calls w @ [GetViewport i scale]\<rparr>)"

definition page_getTextContent ::
  "nat \<Rightarrow> ('n, 'e) page \<Rightarrow> ('n, 'e) world \<Rightarrow> ('e + 'n text_item list) \<times> ('n, 'e) world" where
  "page_getTextContent i page w =
     (getTextContent page, w\<lparr>calls := calls w @ [GetTextContent i]\<rparr>)"

section \<open>Text extraction\<close>

text \<open>
  The page loop of the plain-text \<open>extractTextFromPDF\<close>: \<open>i\<close> is the loop counter,
  \<open>fullText\<close> the accumulator. A rejected \<open>await\<close> leaves the loop through the
  \<open>catch\<close>, which rejects with the same value.
\<close>

function text_pages ::
  "nat \<Rightarrow> string \<Rightarrow> ('n, 'e) world \<Rightarrow> ('e + string) \<times> ('n, 'e) world" where
  "text_pages i fullText w =
     (if i \<le> numPages (pdf w) then
        (case pdf_getPage i w of
           (Inl error, w1) \<Rightarrow> (Inl error, w1)
         | (Inr page, w1) \<Rightarrow>
             (case page_getTextContent i page w1 of
                (Inl error, w2) \<Rightarrow> (Inl error, w2)
              | (Inr textContent, w2) \<Rightarrow>
                  (let textItems = map str textContent
                   in text_pages (i + 1)
                        (fullText @ join '' '' textItems @ ''\<newline>\<newline>'') w2)))
      else (Inr fullText, w))"
  by pat_completeness auto
termination
  by (relation "measure (\<lambda>(i, fullText, w). numPages (pdf w) + 1 - i)")
     (auto simp: pdf_getPage_def page_getTextContent_def)

declare text_pages.simps [simp del]

definition extractTextFromPDF_text ::
  "('n, 'e) world \<Rightarrow> ('e + string) \<times> ('n, 'e) world" where
  "extractTextFromPDF_text w = text_pages 1 [] w"

section \<open>Layout extraction\<close>

text \<open>The fixed pieces of the two template literals, between their placeholders.\<close>

definition page_tpl_0 :: string where
  \<open>page_tpl_0 =
       ''<div class="pdf-page" style="\<newline>''
     @ ''                            position: relative;\<newline>''
     @ ''                            width: ''\<close>

definition page_tpl_1 :: string where
  \<open>page_tpl_1 =
       ''px;\<newline>''
     @ ''                            height: ''\<close>

definition page_tpl_2 :: string where
  \<open>page_tpl_2 =
       ''px;\<newline>''
     @ ''                            border: 1px solid #ddd;\<newline>''
     @ ''                            margin: 20px auto;\<newline>''
     @ ''                            background: white;\<newline>''
     @ ''                            overflow: hidden;\<newline>''
     @ ''                        ">''\<close>

definition item_tpl_0 :: string where
  \<open>item_tpl_0 =
       ''\<newline>''
     @ ''                                <div style="\<newline>''
     @ ''                                    position: absolute;\<newline>''
     @ ''                                    left: ''\<close>

definition item_tpl_1 :: string where
  \<open>item_tpl_1 =
       ''px;\<newline>''
     @ ''                                    top: ''\<close>

definition item_tpl_2 :: string where
  \<open>item_tpl_2 =
       ''px;\<newline>''
     @ ''                                    font-size: ''\<close>

definition item_tpl_3 :: string where
  \<open>item_tpl_3 =
       ''px;\<newline>''
     @ ''                                    font-family: ''\<close>

definition item_tpl_4 :: string where
  \<open>item_tpl_4 =
       '';\<newline>''
     @ ''                                    white-space: nowrap;\<newline>''
     @ ''                                ">\<newline>''
     @ ''                                    ''\<close>

definition item_tpl_5 :: string where
  \<open>item_tpl_5 =
       ''\<newline>''
     @ ''                                </div>''\<close>

text \<open>The opening of a page container, and the node appended for one item.\<close>

definition page_open :: "'n numops \<Rightarrow> 'n viewport \<Rightarrow> string" where
  "page_open N viewport =
     page_tpl_0 @ nshow N (width viewport) @ page_tpl_1 @ nshow N (height viewport) @ page_tpl_2"

definition item_html :: "'n numops \<Rightarrow> 'n viewport \<Rightarrow> 'n text_item \<Rightarrow> string" where
  "item_html N viewport item =
     (let x = js_index (transform item) 4;
          y = nsub N (height viewport) (to_number N (js_index (transform item) 5));
          fontSize = js_index (transform item) 0
      in item_tpl_0 @ to_string N x @ item_tpl_1 @ nshow N y @ item_tpl_2
         @ to_string N fontSize @ item_tpl_3 @ fontName item @ item_tpl_4
         @ str item @ item_tpl_5)"

text \<open>The body of the loop after the fetches: one page's container.\<close>

definition page_html :: "'n numops \<Rightarrow> 'n viewport \<Rightarrow> 'n text_item list \<Rightarrow> string" where
  "page_html N viewport textContent =
     foldl (\<lambda>pageHtml item. pageHtml @ item_html N viewport item)
       (page_open N viewport) textContent @ ''</div>''"

function layout_pages ::
  "'n numops \<Rightarrow> nat \<Rightarrow> string \<Rightarrow> ('n, 'e) world \<Rightarrow> ('e + string) \<times> ('n, 'e) world" where
  "layout_pages N i extractedData w =
     (if i \<le> numPages (pdf w) then
        (case pdf_getPage i w of
           (Inl error, w1) \<Rightarrow> (Inl error, w1)
         | (Inr page, w1) \<Rightarrow>
             (case page_getViewport i page (3 / 2) w1 of
                (viewport, w2) \<Rightarrow>
                  (case page_getTextContent i page w2 of
                     (Inl error, w3) \<Rightarrow> (Inl error, w3)
                   | (Inr textContent, w3) \<Rightarrow>
                       layout_pages N (i + 1)
                         (extractedData @ page_html N viewport textContent) w3)))
      else (Inr extractedData, w))"
  by pat_completeness auto
termination
  by (relation "measure (\<lambda>(N, i, extractedData, w). numPages (pdf w) + 1 - i)")
     (auto simp: pdf_getPage_def page_getViewport_def page_getTextContent_def)

declare layout_pages.simps [simp del]

definition extractTextFromPDF_layout ::
  "'n numops \<Rightarrow> ('n, 'e) world \<Rightarrow> ('e + string) \<times> ('n, 'e) world" where
  "extractTextFromPDF_layout N w = layout_pages N 1 [] w"

text \<open>
  Which logged calls are fetches the code awaits; \<open>getViewport\<close> answers at once.
\<close>

fun is_fetch :: "call \<Rightarrow> bool" where
  "is_fetch (GetPage i) = True"
| "is_fetch (GetViewport i scale) = False"
| "is_fetch (GetTextContent i) = True"

section \<open>Issue and settlement of engine calls\<close>

text \<open>
  The same two loops once more, with a finer log. \<open>const page = await pdf.getPage(i)\<close>
  issues the call and suspends the loop until the promise is settled, fulfilled or
  rejected; only then does the next statement run. \<open>page.getViewport(...)\<close> is an
  ordinary call that returns at once. The log records the issue and the settlement of
  every call, and the moment the page's output is appended to the accumulator
  (\<open>fullText += ...\<close>, \<open>extractedData += pageHtml\<close>). The loops are otherwise those of
  the sections above, statement for statement.
\<close>

datatype event = Issued call | Settled call bool | Appended nat

definition fulfilled :: "'e + 'a \<Rightarrow> bool" where
  "fulfilled r = (case r of Inl error \<Rightarrow> False | Inr v \<Rightarrow> True)"

definition await_getPage ::
  "nat \<Rightarrow> ('n, 'e) document \<Rightarrow> event list \<Rightarrow> ('e + ('n, 'e) page) \<times> event list" where
  "await_getPage i d es =
     (getPage d i, es @ [Issued (GetPage i), Settled (GetPage i) (fulfilled (getPage d i))])"

definition call_getViewport ::
  "nat \<Rightarrow> ('n, 'e) page \<Rightarrow> rat \<Rightarrow> event list \<Rightarrow> 'n viewport \<times> event list" where
  "call_getViewport i page scale es =
     (getViewport page scale,
      es @ [Issued (GetViewport i scale), Settled (GetViewport i scale) True])"

definition await_getTextContent ::
  "nat \<Rightarrow> ('n, 'e) page \<Rightarrow> event list \<Rightarrow> ('e + 'n text_item list) \<times> event list" where
  "await_getTextContent i page es =
     (getTextContent page,
      es @ [Issued (GetTextContent i),
            Settled (GetTextContent i) (fulfilled (getTextContent page))])"

function text_pages_events ::
  "nat \<Rightarrow> string \<Rightarrow> ('n, 'e) document \<Rightarrow> event list \<Rightarrow> ('e + string) \<times> event list" where
  "text_pages_events i fullText d es =
     (if i \<le> numPages d then
        (case await_getPage i d es of
           (Inl error, es1) \<Rightarrow> (Inl error, es1)
         | (Inr page, es1) \<Rightarrow>
             (case await_getTextContent i page es1 of
                (Inl error, es2) \<Rightarrow> (Inl error, es2)
              | (Inr textContent, es2) \<Rightarrow>
                  (let textItems = map str textContent
                   in text_pages_events (i + 1)
                        (fullText @ join '' '' textItems @ ''\<newline>\<newline>'') d
                        (es2 @ [Appended i]))))
      else (Inr fullText, es))"
  by pat_completeness auto
termination
  by (relation "measure (\<lambda>(i, fullText, d, es). numPages d + 1 - i)") auto

declare text_pages_events.simps [simp del]

definition extractTextFromPDF_text_events ::
  "('n, 'e) document \<Rightarrow> ('e + string) \<times> event list" where
  "extractTextFromPDF_text_events d = text_pages_events 1 [] d []"

function layout_pages_events ::
  "'n numops \<Rightarrow> nat \<Rightarrow> string \<Rightarrow> ('n, 'e) document \<Rightarrow> event list
     \<Rightarrow> ('e + string) \<times> event list" where
  "layout_pages_events N i extractedData d es =
     (if i \<le> numPages d then
        (case await_getPage i d es of
           (Inl error, es1) \<Rightarrow> (Inl error, es1)
         | (Inr page, es1) \<Rightarrow>
             (case call_getViewport i page (3 / 2) es1 of
                (viewport, es2) \<Rightarrow>
                  (case await_getTextContent i page es2 of
                     (Inl error, es3) \<Rightarrow> (Inl error, es3)
                   | (Inr textContent, es3) \<Rightarrow>
                       layout_pages_events N (i + 1)
                         (extractedData @ page_html N viewport textContent) d
                         (es3 @ [Appended i]))))
      else (Inr extractedData, es))"
  by pat_completeness auto
termination
  by (relation "measure (\<lambda>(N, i, extractedData, d, es). numPages d + 1 - i)") auto

declare layout_pages_events.simps [simp del]

definition extractTextFromPDF_layout_events ::
  "'n numops \<Rightarrow> ('n, 'e) document \<Rightarrow> ('e + string) \<times> event list" where
  "extractTextFromPDF_layout_events N d = layout_pages_events N 1 [] d []"

text \<open>
  Reading a log: the calls it issued, in order; the calls in flight at its end, issued
  and not yet settled; and the events that have to be in the log before an event may
  follow.
\<close>

fun issued :: "event list \<Rightarrow> call list" where
  "issued [] = []"
| "issued (Issued c # es) = c # issued es"
| "issued (Settled c ok # es) = issued es"
| "issued (Appended i # es) = issued es"

fun in_flight_after :: "call list \<Rightarrow> event \<Rightarrow> call list" where
  "in_flight_after cs (Issued c) = cs @ [c]"
| "in_flight_after cs (Settled c ok) = remove1 c cs"
| "in_flight_after cs (Appended i) = cs"

definition in_flight :: "event list \<Rightarrow> call list" where
  "in_flight es = foldl in_flight_after [] es"

fun needs :: "event \<Rightarrow> event list" where
  "needs (Issued (GetPage k)) =
     (if 2 \<le> k then [Settled (GetTextContent (k - 1)) True, Appended (k - 1)] else [])"
| "needs (Issued (GetViewport k scale)) = [Settled (GetPage k) True]"
| "needs (Issued (GetTextContent k)) = [Settled (GetPage k) True]"
| "needs (Settled c ok) = [Issued c]"
| "needs (Appended k) = [Settled (GetTextContent k) True]"

abbreviation quiet :: "event list \<Rightarrow> bool" where
  "quiet es \<equiv> (\<forall>n. length (in_flight (take n es)) \<le> 1)"

abbreviation in_order :: "event list \<Rightarrow> bool" where
  "in_order es \<equiv> (\<forall>pre x post. es = pre @ x # post \<longrightarrow> set (needs x) \<subseteq> set pre)"

abbreviation clean :: "event list \<Rightarrow> bool" where
  "clean es \<equiv> (\<forall>c. Settled c False \<notin> set es)"

section \<open>Concrete numbers and documents\<close>

text \<open>
  One instance of the number operations, for the examples: integers in the range where
  the host's arithmetic is exact, with \<open>None\<close> for \<open>NaN\<close>. Subtraction is integer
  subtraction and the conversion to text is the decimal numeral, as the host prints an
  integral Number.
\<close>

fun digits :: "nat \<Rightarrow> string" where
  "digits n =
     (if n < 10 then [''0123456789'' ! n]
      else digits (n div 10) @ [''0123456789'' ! (n mod 10)])"

declare digits.simps [simp del]

definition show_int :: "int \<Rightarrow> string" where
  "show_int i = (if i < 0 then ''-'' @ digits (nat (- i)) else digits (nat i))"

definition int_ops :: "int option numops" where
  "int_ops =
     \<lparr>nsub = (\<lambda>a b. case a of None \<Rightarrow> None
                     | Some x \<Rightarrow> (case b of None \<Rightarrow> None | Some y \<Rightarrow> Some (x - y))),
      nshow = (\<lambda>a. case a of None \<Rightarrow> ''NaN'' | Some x \<Rightarrow> show_int x),
      nnan = None\<rparr>"

text \<open>
  A document given by the answers of \<open>getPage\<close> for the indices \<open>1\<close> to its page
  count, and a page whose viewport is the same at every scale.
\<close>

definition doc_of_results :: "('e + ('n, 'e) page) list \<Rightarrow> 'e \<Rightarrow> ('n, 'e) document" where
  "doc_of_results rs err =
     \<lparr>numPages = length rs,
      getPage = (\<lambda>i. if 1 \<le> i \<and> i \<le> length rs then rs ! (i - 1) else Inl err)\<rparr>"

definition fixed_page :: "'n viewport \<Rightarrow> 'n text_item list \<Rightarrow> ('n, 'e) page" where
  "fixed_page vp items = \<lparr>getViewport = (\<lambda>scale. vp), getTextContent = Inr items\<rparr>"

text \<open>
  The two-page document of the specification's scenario. It leaves the viewport widths
  and the font names open; they are parameters here.
\<close>

definition hello_item :: "string \<Rightarrow> int option text_item" where
  "hello_item f =
     \<lparr>str = ''Hello'', transform = map Some [12, 0, 0, 12, 10, 780], fontName = f\<rparr>"

definition world_item :: "string \<Rightarrow> int option text_item" where
  "world_item f =
     \<lparr>str = ''World'', transform = map Some [10, 0, 0, 10, 5, 100], fontName = f\<rparr>"

definition scenario_page :: "nat \<Rightarrow> int option \<Rightarrow> string \<Rightarrow> (int option, string) page" where
  "scenario_page k w f =
     (if k = 1 then fixed_page \<lparr>width = w, height = Some 792\<rparr> [hello_item f]
      else fixed_page \<lparr>width = w, height = Some 500\<rparr> [world_item f])"

definition scenario ::
  "int option \<Rightarrow> string \<Rightarrow> int option \<Rightarrow> string \<Rightarrow> (int option, string) document" where
  "scenario w1 f1 w2 f2 =
     doc_of_results [Inr (scenario_page 1 w1 f1), Inr (scenario_page 2 w2 f2)]
       ''Invalid page request.''"


text \<open>The scenario with widths and fonts chosen, and its pages and items by index.\<close>

definition demo_world :: "(int option, string) world" where
  "demo_world = \<lparr>pdf = scenario (Some 918) ''Helvetica'' (Some 750) ''Courier'', calls = []\<rparr>"

definition demo_page :: "nat \<Rightarrow> (int option, string) page" where
  "demo_page k =
     (if k = 1 then scenario_page 1 (Some 918) ''Helvetica''
      else scenario_page 2 (Some 750) ''Courier'')"

definition demo_items :: "nat \<Rightarrow> int option text_item list" where
  "demo_items k = (if k = 1 then [hello_item ''Helvetica''] else [world_item ''Courier''])"

text \<open>A document without pages.\<close>

definition empty_world :: "(int option, string) world" where
  "empty_world = \<lparr>pdf = doc_of_results [] ''Invalid page request.'', calls = []\<rparr>"

text \<open>
  Two-page documents on which the engine rejects with the value \<open>''boom''\<close>: the fetch
  of page \<open>k\<close> in \<open>broken_world k\<close>, the text content of page 2 in \<open>unreadable_world\<close>.
\<close>

definition broken_world :: "nat \<Rightarrow> (int option, string) world" where
  "broken_world k =
     \<lparr>pdf = doc_of_results
        [if k = 1 then Inl ''boom'' else Inr (demo_page 1),
         if k = 2 then Inl ''boom'' else Inr (demo_page 2)]
        ''Invalid page request.'',
      calls = []\<rparr>"

definition unreadable_page :: "(int option, string) page" where
  "unreadable_page =
     \<lparr>getViewport = (\<lambda>scale. \<lparr>width = Some 750, height = Some 500\<rparr>),
      getTextContent = Inl ''boom''\<rparr>"

definition unreadable_world :: "(int option, string) world" where
  "unreadable_world =
     \<lparr>pdf = doc_of_results [Inr (demo_page 1), Inr unreadable_page] ''Invalid page request.'',
      calls = []\<rparr>"

text \<open>
  A one-page document whose engine scales a 612 by 792 page box by the requested factor,
  and one whose only item carries markup characters in its text and font name.
\<close>

definition letter_page :: "(int option, string) page" where
  "letter_page =
     \<lparr>getViewport = (\<lambda>scale. \<lparr>width = Some \<lfloor>612 * scale\<rfloor>, height = Some \<lfloor>792 * scale\<rfloor>\<rparr>),
      getTextContent = Inr [hello_item ''Helvetica'']\<rparr>"

definition letter_world :: "(int option, string) world" where
  "letter_world = \<lparr>pdf = doc_of_results [Inr letter_page] ''Invalid page request.'', calls = []\<rparr>"

definition markup_item :: "int option text_item" where
  \<open>markup_item =
     \<lparr>str = ''a<b&c'', transform = map Some [9, 0, 0, 9, 72, 700], fontName = ''x"><i>''\<rparr>\<close>

definition markup_page :: "(int option, string) page" where
  "markup_page = fixed_page \<lparr>width = Some 918, height = Some 1188\<rparr> [markup_item]"

definition markup_world :: "(int option, string) world" where
  "markup_world = \<lparr>pdf = doc_of_results [Inr markup_page] ''Invalid page request.'', calls = []\<rparr>"

section \<open>The loops, characterised\<close>

text \<open>
  What each loop returns and logs: when every fetch succeeds, when the first failure is
  at page \<open>k\<close>, and in any case. The document is never written, and the outcome
  depends on the document alone.
\<close>

subsection \<open>The text loop\<close>

lemma pdf_text_pages: "pdf (snd (text_pages i acc w)) = pdf w"
proof (induction i acc w rule: text_pages.induct)
  case (1 i fullText w)
  show ?case
    apply (subst text_pages.simps)
    using 1
    by (auto simp: pdf_getPage_def page_getTextContent_def split: sum.splits)
qed

lemma text_pages_ok:
  assumes "\<forall>k. i \<le> k \<and> k \<le> numPages (pdf w) \<longrightarrow>
             getPage (pdf w) k = Inr (P k) \<and> getTextContent (P k) = Inr (T k)"
  shows "text_pages i acc w =
           (Inr (acc @ concat (map (\<lambda>k. join '' '' (map str (T k)) @ ''\<newline>\<newline>'')
                                 [i..<Suc (numPages (pdf w))])),
            w\<lparr>calls := calls w @ concat (map (\<lambda>k. [GetPage k, GetTextContent k])
                                 [i..<Suc (numPages (pdf w))])\<rparr>)"
  using assms
proof (induction i acc w rule: text_pages.induct)
  case (1 i fullText w)
  show ?case
  proof (cases "i \<le> numPages (pdf w)")
    case False
    then show ?thesis by (subst text_pages.simps) simp
  next
    case True
    let ?w2 = "w\<lparr>calls := calls w @ [GetPage i, GetTextContent i]\<rparr>"
    have p: "getPage (pdf w) i = Inr (P i)" and t: "getTextContent (P i) = Inr (T i)"
      using "1.prems" True by auto
    have step: "text_pages i fullText w =
        text_pages (i + 1) (fullText @ join '' '' (map str (T i)) @ ''\<newline>\<newline>'') ?w2"
      by (subst text_pages.simps) (simp add: True p t pdf_getPage_def page_getTextContent_def)
    have ih: "text_pages (i + 1) (fullText @ join '' '' (map str (T i)) @ ''\<newline>\<newline>'') ?w2 =
       (Inr ((fullText @ join '' '' (map str (T i)) @ ''\<newline>\<newline>'') @
           concat (map (\<lambda>k. join '' '' (map str (T k)) @ ''\<newline>\<newline>'') [i + 1..<Suc (numPages (pdf ?w2))])),
        ?w2\<lparr>calls := calls ?w2 @ concat (map (\<lambda>k. [GetPage k, GetTextContent k]) [i + 1..<Suc (numPages (pdf ?w2))])\<rparr>)"
      apply (rule "1.IH"[OF True])
      using "1.prems" by (auto simp: pdf_getPage_def page_getTextContent_def p t)
    have up: "[i..<Suc (numPages (pdf w))] = i # [i + 1..<Suc (numPages (pdf w))]"
      using True by (simp add: upt_conv_Cons)
    show ?thesis
      unfolding step ih up by simp
  qed
qed

lemma text_pages_same_doc:
  "pdf w' = pdf w \<Longrightarrow> fst (text_pages i acc w') = fst (text_pages i acc w)"
proof (induction i acc w arbitrary: w' rule: text_pages.induct)
  case (1 i fullText w)
  note same = "1.prems"
  show ?case
  proof (cases "i \<le> numPages (pdf w)")
    case False
    then show ?thesis
      by (subst text_pages.simps, subst (2) text_pages.simps) (simp add: same)
  next
    case le: True
    show ?thesis
    proof (cases "getPage (pdf w) i")
      case (Inl e)
      then show ?thesis
        by (subst text_pages.simps, subst (2) text_pages.simps)
           (simp add: le same pdf_getPage_def)
    next
      case (Inr p)
      show ?thesis
      proof (cases "getTextContent p")
        case (Inl e)
        then show ?thesis
          by (subst text_pages.simps, subst (2) text_pages.simps)
             (simp add: le same Inr pdf_getPage_def page_getTextContent_def)
      next
        case t: (Inr tc)
        let ?w2 = "w\<lparr>calls := calls w @ [GetPage i, GetTextContent i]\<rparr>"
        let ?w2' = "w'\<lparr>calls := calls w' @ [GetPage i, GetTextContent i]\<rparr>"
        let ?acc = "fullText @ join '' '' (map str tc) @ ''\<newline>\<newline>''"
        have step: "text_pages i fullText w = text_pages (i + 1) ?acc ?w2"
          by (subst text_pages.simps) (simp add: le Inr t pdf_getPage_def page_getTextContent_def)
        have step': "text_pages i fullText w' = text_pages (i + 1) ?acc ?w2'"
          by (subst text_pages.simps)
             (simp add: le same Inr t pdf_getPage_def page_getTextContent_def)
        have "fst (text_pages (i + 1) ?acc ?w2') = fst (text_pages (i + 1) ?acc ?w2)"
          by (rule "1.IH"[OF le])
             (auto simp: pdf_getPage_def page_getTextContent_def Inr t same)
        then show ?thesis
          unfolding step step' .
      qed
    qed
  qed
qed

lemma text_pages_fail_page:
  assumes "i \<le> k" "k \<le> numPages (pdf w)"
    and "\<forall>j. i \<le> j \<and> j < k \<longrightarrow>
             getPage (pdf w) j = Inr (P j) \<and> getTextContent (P j) = Inr (T j)"
    and "getPage (pdf w) k = Inl e"
  shows "text_pages i acc w =
           (Inl e, w\<lparr>calls := calls w @ concat (map (\<lambda>j. [GetPage j, GetTextContent j]) [i..<k])
                                @ [GetPage k]\<rparr>)"
  using assms
proof (induction i acc w rule: text_pages.induct)
  case (1 i fullText w)
  have le: "i \<le> numPages (pdf w)" using "1.prems" by simp
  show ?case
  proof (cases "i = k")
    case True
    then show ?thesis
      by (subst text_pages.simps) (simp add: le "1.prems" pdf_getPage_def)
  next
    case False
    then have lt: "i < k" using "1.prems" by simp
    let ?w2 = "w\<lparr>calls := calls w @ [GetPage i, GetTextContent i]\<rparr>"
    let ?acc = "fullText @ join '' '' (map str (T i)) @ ''\<newline>\<newline>''"
    have p: "getPage (pdf w) i = Inr (P i)" and t: "getTextContent (P i) = Inr (T i)"
      using "1.prems" lt by auto
    have step: "text_pages i fullText w = text_pages (i + 1) ?acc ?w2"
      by (subst text_pages.simps) (simp add: le p t pdf_getPage_def page_getTextContent_def)
    have ih: "text_pages (i + 1) ?acc ?w2 =
       (Inl e, ?w2\<lparr>calls := calls ?w2 @ concat (map (\<lambda>j. [GetPage j, GetTextContent j]) [i + 1..<k])
                                @ [GetPage k]\<rparr>)"
      apply (rule "1.IH"[OF le])
      using "1.prems" lt by (auto simp: pdf_getPage_def page_getTextContent_def p t)
    have up: "[i..<k] = i # [i + 1..<k]"
      using lt by (simp add: upt_conv_Cons)
    show ?thesis
      unfolding step ih up by simp
  qed
qed

lemma text_pages_fail_content:
  assumes "i \<le> k" "k \<le> numPages (pdf w)"
    and "\<forall>j. i \<le> j \<and> j < k \<longrightarrow>
             getPage (pdf w) j = Inr (P j) \<and> getTextContent (P j) = Inr (T j)"
    and "getPage (pdf w) k = Inr p" "getTextContent p = Inl e"
  shows "text_pages i acc w =
           (Inl e, w\<lparr>calls := calls w @ concat (map (\<lambda>j. [GetPage j, GetTextContent j]) [i..<k])
                                @ [GetPage k, GetTextContent k]\<rparr>)"
  using assms
proof (induction i acc w rule: text_pages.induct)
  case (1 i fullText w)
  have le: "i \<le> numPages (pdf w)" using "1.prems" by simp
  show ?case
  proof (cases "i = k")
    case True
    then show ?thesis
      by (subst text_pages.simps)
         (simp add: le "1.prems" pdf_getPage_def page_getTextContent_def)
  next
    case False
    then have lt: "i < k" using "1.prems" by simp
    let ?w2 = "w\<lparr>calls := calls w @ [GetPage i, GetTextContent i]\<rparr>"
    let ?acc = "fullText @ join '' '' (map str (T i)) @ ''\<newline>\<newline>''"
    have p: "getPage (pdf w) i = Inr (P i)" and t: "getTextContent (P i) = Inr (T i)"
      using "1.prems" lt by auto
    have step: "text_pages i fullText w = text_pages (i + 1) ?acc ?w2"
      by (subst text_pages.simps) (simp add: le p t pdf_getPage_def page_getTextContent_def)
    have ih: "text_pages (i + 1) ?acc ?w2 =
       (Inl e, ?w2\<lparr>calls := calls ?w2 @ concat (map (\<lambda>j. [GetPage j, GetTextContent j]) [i + 1..<k])
                                @ [GetPage k, GetTextContent k]\<rparr>)"
      apply (rule "1.IH"[OF le])
      using "1.prems" lt by (auto simp: pdf_getPage_def page_getTextContent_def p t)
    have up: "[i..<k] = i # [i + 1..<k]"
      using lt by (simp add: upt_conv_Cons)
    show ?thesis
      unfolding step ih up by simp
  qed
qed

lemma text_pages_trace_prefix:
  "\<exists>t. calls (snd (text_pages i acc w)) = calls w @ t \<and>
       prefix t (concat (map (\<lambda>k. [GetPage k, GetTextContent k]) [i..<Suc (numPages (pdf w))]))"
proof (induction i acc w rule: text_pages.induct)
  case (1 i fullText w)
  show ?case
  proof (cases "i \<le> numPages (pdf w)")
    case False
    then show ?thesis by (subst text_pages.simps) simp
  next
    case le: True
    have up: "[i..<Suc (numPages (pdf w))] = i # [i + 1..<Suc (numPages (pdf w))]"
      using le by (simp add: upt_conv_Cons)
    show ?thesis
    proof (cases "getPage (pdf w) i")
      case (Inl e)
      then show ?thesis
        unfolding up by (subst text_pages.simps) (simp add: le pdf_getPage_def)
    next
      case (Inr p)
      show ?thesis
      proof (cases "getTextContent p")
        case (Inl e)
        then show ?thesis
          unfolding up
          by (subst text_pages.simps) (simp add: le Inr pdf_getPage_def page_getTextContent_def)
      next
        case t: (Inr tc)
        let ?w2 = "w\<lparr>calls := calls w @ [GetPage i, GetTextContent i]\<rparr>"
        let ?acc = "fullText @ join '' '' (map str tc) @ ''\<newline>\<newline>''"
        have step: "text_pages i fullText w = text_pages (i + 1) ?acc ?w2"
          by (subst text_pages.simps) (simp add: le Inr t pdf_getPage_def page_getTextContent_def)
        have "\<exists>t. calls (snd (text_pages (i + 1) ?acc ?w2)) = calls ?w2 @ t \<and>
           prefix t (concat (map (\<lambda>k. [GetPage k, GetTextContent k]) [i + 1..<Suc (numPages (pdf ?w2))]))"
          by (rule "1.IH"[OF le]) (auto simp: pdf_getPage_def page_getTextContent_def Inr t)
        then obtain t' where t': "calls (snd (text_pages (i + 1) ?acc ?w2)) = calls ?w2 @ t'"
          "prefix t' (concat (map (\<lambda>k. [GetPage k, GetTextContent k]) [i + 1..<Suc (numPages (pdf w))]))"
          by auto
        show ?thesis
          unfolding step up
          by (rule exI[of _ "[GetPage i, GetTextContent i] @ t'"]) (use t' in simp)
      qed
    qed
  qed
qed

lemma text_pages_success_trace:
  "fst (text_pages i acc w) = Inr s \<Longrightarrow>
   calls (snd (text_pages i acc w)) =
     calls w @ concat (map (\<lambda>k. [GetPage k, GetTextContent k]) [i..<Suc (numPages (pdf w))])"
proof (induction i acc w rule: text_pages.induct)
  case (1 i fullText w)
  show ?case
  proof (cases "i \<le> numPages (pdf w)")
    case False
    then show ?thesis by (subst text_pages.simps) simp
  next
    case le: True
    have up: "[i..<Suc (numPages (pdf w))] = i # [i + 1..<Suc (numPages (pdf w))]"
      using le by (simp add: upt_conv_Cons)
    show ?thesis
    proof (cases "getPage (pdf w) i")
      case (Inl e)
      then have "fst (text_pages i fullText w) = Inl e"
        by (subst text_pages.simps) (simp add: le pdf_getPage_def)
      with "1.prems" show ?thesis by simp
    next
      case (Inr p)
      show ?thesis
      proof (cases "getTextContent p")
        case (Inl e)
        then have "fst (text_pages i fullText w) = Inl e"
          by (subst text_pages.simps) (simp add: le Inr pdf_getPage_def page_getTextContent_def)
        with "1.prems" show ?thesis by simp
      next
        case t: (Inr tc)
        let ?w2 = "w\<lparr>calls := calls w @ [GetPage i, GetTextContent i]\<rparr>"
        let ?acc = "fullText @ join '' '' (map str tc) @ ''\<newline>\<newline>''"
        have step: "text_pages i fullText w = text_pages (i + 1) ?acc ?w2"
          by (subst text_pages.simps) (simp add: le Inr t pdf_getPage_def page_getTextContent_def)
        have "calls (snd (text_pages (i + 1) ?acc ?w2)) =
           calls ?w2 @ concat (map (\<lambda>k. [GetPage k, GetTextContent k]) [i + 1..<Suc (numPages (pdf ?w2))])"
          apply (rule "1.IH"[OF le])
          using "1.prems" by (auto simp: pdf_getPage_def page_getTextContent_def Inr t step)
        then show ?thesis
          unfolding step up by simp
      qed
    qed
  qed
qed

subsection \<open>The layout loop\<close>

lemma foldl_append_concat:
  "foldl (\<lambda>acc x. acc @ f x) init xs = init @ concat (map f xs)"
  by (induction xs arbitrary: init) simp_all

lemma page_html_eq:
  "page_html N vp items = page_open N vp @ concat (map (item_html N vp) items) @ ''</div>''"
  by (simp add: page_html_def foldl_append_concat)

lemma pdf_layout_pages: "pdf (snd (layout_pages N i acc w)) = pdf w"
proof (induction N i acc w rule: layout_pages.induct)
  case (1 N i extractedData w)
  show ?case
    apply (subst layout_pages.simps)
    using 1
    by (auto simp: pdf_getPage_def page_getViewport_def page_getTextContent_def
        split: sum.splits)
qed

lemma layout_pages_ok:
  assumes "\<forall>k. i \<le> k \<and> k \<le> numPages (pdf w) \<longrightarrow>
             getPage (pdf w) k = Inr (P k) \<and> getTextContent (P k) = Inr (T k)"
  shows "layout_pages N i acc w =
           (Inr (acc @ concat (map (\<lambda>k. page_html N (getViewport (P k) (3 / 2)) (T k))
                                 [i..<Suc (numPages (pdf w))])),
            w\<lparr>calls := calls w @
                 concat (map (\<lambda>k. [GetPage k, GetViewport k (3 / 2), GetTextContent k])
                                 [i..<Suc (numPages (pdf w))])\<rparr>)"
  using assms
proof (induction N i acc w rule: layout_pages.induct)
  case (1 N i extractedData w)
  show ?case
  proof (cases "i \<le> numPages (pdf w)")
    case False
    then show ?thesis by (subst layout_pages.simps) simp
  next
    case True
    let ?w3 = "w\<lparr>calls := calls w @ [GetPage i, GetViewport i (3 / 2), GetTextContent i]\<rparr>"
    let ?acc = "extractedData @ page_html N (getViewport (P i) (3 / 2)) (T i)"
    have p: "getPage (pdf w) i = Inr (P i)" and t: "getTextContent (P i) = Inr (T i)"
      using "1.prems" True by auto
    have step: "layout_pages N i extractedData w = layout_pages N (i + 1) ?acc ?w3"
      by (subst layout_pages.simps)
         (simp add: True p t pdf_getPage_def page_getViewport_def page_getTextContent_def)
    have ih: "layout_pages N (i + 1) ?acc ?w3 =
       (Inr (?acc @
           concat (map (\<lambda>k. page_html N (getViewport (P k) (3 / 2)) (T k))
                     [i + 1..<Suc (numPages (pdf ?w3))])),
        ?w3\<lparr>calls := calls ?w3 @
           concat (map (\<lambda>k. [GetPage k, GetViewport k (3 / 2), GetTextContent k])
                     [i + 1..<Suc (numPages (pdf ?w3))])\<rparr>)"
      apply (rule "1.IH"[OF True])
      using "1.prems"
      by (auto simp: pdf_getPage_def page_getViewport_def page_getTextContent_def p t)
    have up: "[i..<Suc (numPages (pdf w))] = i # [i + 1..<Suc (numPages (pdf w))]"
      using True by (simp add: upt_conv_Cons)
    show ?thesis
      unfolding step ih up by simp
  qed
qed

lemma layout_pages_same_doc:
  "pdf w' = pdf w \<Longrightarrow> fst (layout_pages N i acc w') = fst (layout_pages N i acc w)"
proof (induction N i acc w arbitrary: w' rule: layout_pages.induct)
  case (1 N i extractedData w)
  note same = "1.prems"
  show ?case
  proof (cases "i \<le> numPages (pdf w)")
    case False
    then show ?thesis
      by (subst layout_pages.simps, subst (2) layout_pages.simps) (simp add: same)
  next
    case le: True
    show ?thesis
    proof (cases "getPage (pdf w) i")
      case (Inl e)
      then show ?thesis
        by (subst layout_pages.simps, subst (2) layout_pages.simps)
           (simp add: le same pdf_getPage_def)
    next
      case (Inr p)
      show ?thesis
      proof (cases "getTextContent p")
        case (Inl e)
        then show ?thesis
          by (subst layout_pages.simps, subst (2) layout_pages.simps)
             (simp add: le same Inr pdf_getPage_def page_getViewport_def
                page_getTextContent_def)
      next
        case t: (Inr tc)
        let ?cs = "[GetPage i, GetViewport i (3 / 2), GetTextContent i]"
        let ?w3 = "w\<lparr>calls := calls w @ ?cs\<rparr>"
        let ?w3' = "w'\<lparr>calls := calls w' @ ?cs\<rparr>"
        let ?acc = "extractedData @ page_html N (getViewport p (3 / 2)) tc"
        have step: "layout_pages N i extractedData w = layout_pages N (i + 1) ?acc ?w3"
          by (subst layout_pages.simps)
             (simp add: le Inr t pdf_getPage_def page_getViewport_def page_getTextContent_def)
        have step': "layout_pages N i extractedData w' = layout_pages N (i + 1) ?acc ?w3'"
          by (subst layout_pages.simps)
             (simp add: le same Inr t pdf_getPage_def page_getViewport_def
                page_getTextContent_def)
        have "fst (layout_pages N (i + 1) ?acc ?w3') = fst (layout_pages N (i + 1) ?acc ?w3)"
          by (rule "1.IH"[OF le])
             (auto simp: pdf_getPage_def page_getViewport_def page_getTextContent_def
                Inr t same)
        then show ?thesis
          unfolding step step' .
      qed
    qed
  qed
qed

lemma layout_pages_fail_page:
  assumes "i \<le> k" "k \<le> numPages (pdf w)"
    and "\<forall>j. i \<le> j \<and> j < k \<longrightarrow>
             getPage (pdf w) j = Inr (P j) \<and> getTextContent (P j) = Inr (T j)"
    and "getPage (pdf w) k = Inl e"
  shows "layout_pages N i acc w =
           (Inl e, w\<lparr>calls := calls w @
               concat (map (\<lambda>j. [GetPage j, GetViewport j (3 / 2), GetTextContent j]) [i..<k])
               @ [GetPage k]\<rparr>)"
  using assms
proof (induction N i acc w rule: layout_pages.induct)
  case (1 N i extractedData w)
  have le: "i \<le> numPages (pdf w)" using "1.prems" by simp
  show ?case
  proof (cases "i = k")
    case True
    then show ?thesis
      by (subst layout_pages.simps) (simp add: le "1.prems" pdf_getPage_def)
  next
    case False
    then have lt: "i < k" using "1.prems" by simp
    let ?w3 = "w\<lparr>calls := calls w @ [GetPage i, GetViewport i (3 / 2), GetTextContent i]\<rparr>"
    let ?acc = "extractedData @ page_html N (getViewport (P i) (3 / 2)) (T i)"
    have p: "getPage (pdf w) i = Inr (P i)" and t: "getTextContent (P i) = Inr (T i)"
      using "1.prems" lt by auto
    have step: "layout_pages N i extractedData w = layout_pages N (i + 1) ?acc ?w3"
      by (subst layout_pages.simps)
         (simp add: le p t pdf_getPage_def page_getViewport_def page_getTextContent_def)
    have ih: "layout_pages N (i + 1) ?acc ?w3 =
       (Inl e, ?w3\<lparr>calls := calls ?w3 @
           concat (map (\<lambda>j. [GetPage j, GetViewport j (3 / 2), GetTextContent j]) [i + 1..<k])
           @ [GetPage k]\<rparr>)"
      apply (rule "1.IH"[OF le])
      using "1.prems" lt
      by (auto simp: pdf_getPage_def page_getViewport_def page_getTextContent_def p t)
    have up: "[i..<k] = i # [i + 1..<k]"
      using lt by (simp add: upt_conv_Cons)
    show ?thesis
      unfolding step ih up by simp
  qed
qed

lemma layout_pages_fail_content:
  assumes "i \<le> k" "k \<le> numPages (pdf w)"
    and "\<forall>j. i \<le> j \<and> j < k \<longrightarrow>
             getPage (pdf w) j = Inr (P j) \<and> getTextContent (P j) = Inr (T j)"
    and "getPage (pdf w) k = Inr p" "getTextContent p = Inl e"
  shows "layout_pages N i acc w =
           (Inl e, w\<lparr>calls := calls w @
               concat (map (\<lambda>j. [GetPage j, GetViewport j (3 / 2), GetTextContent j]) [i..<k])
               @ [GetPage k, GetViewport k (3 / 2), GetTextContent k]\<rparr>)"
  using assms
proof (induction N i acc w rule: layout_pages.induct)
  case (1 N i extractedData w)
  have le: "i \<le> numPages (pdf w)" using "1.prems" by simp
  show ?case
  proof (cases "i = k")
    case True
    then show ?thesis
      by (subst layout_pages.simps)
         (simp add: le "1.prems" pdf_getPage_def page_getViewport_def page_getTextContent_def)
  next
    case False
    then have lt: "i < k" using "1.prems" by simp
    let ?w3 = "w\<lparr>calls := calls w @ [GetPage i, GetViewport i (3 / 2), GetTextContent i]\<rparr>"
    let ?acc = "extractedData @ page_html N (getViewport (P i) (3 / 2)) (T i)"
    have p: "getPage (pdf w) i = Inr (P i)" and t: "getTextContent (P i) = Inr (T i)"
      using "1.prems" lt by auto
    have step: "layout_pages N i extractedData w = layout_pages N (i + 1) ?acc ?w3"
      by (subst layout_pages.simps)
         (simp add: le p t pdf_getPage_def page_getViewport_def page_getTextContent_def)
    have ih: "layout_pages N (i + 1) ?acc ?w3 =
       (Inl e, ?w3\<lparr>calls := calls ?w3 @
           concat (map (\<lambda>j. [GetPage j, GetViewport j (3 / 2), GetTextContent j]) [i + 1..<k])
           @ [GetPage k, GetViewport k (3 / 2), GetTextContent k]\<rparr>)"
      apply (rule "1.IH"[OF le])
      using "1.prems" lt
      by (auto simp: pdf_getPage_def page_getViewport_def page_getTextContent_def p t)
    have up: "[i..<k] = i # [i + 1..<k]"
      using lt by (simp add: upt_conv_Cons)
    show ?thesis
      unfolding step ih up by simp
  qed
qed

lemma layout_pages_trace_prefix:
  "\<exists>t. calls (snd (layout_pages N i acc w)) = calls w @ t \<and>
       prefix t (concat (map (\<lambda>k. [GetPage k, GetViewport k (3 / 2), GetTextContent k]) [i..<Suc (numPages (pdf w))]))"
proof (induction N i acc w rule: layout_pages.induct)
  case (1 N i extractedData w)
  show ?case
  proof (cases "i \<le> numPages (pdf w)")
    case False
    then show ?thesis by (subst layout_pages.simps) simp
  next
    case le: True
    have up: "[i..<Suc (numPages (pdf w))] = i # [i + 1..<Suc (numPages (pdf w))]"
      using le by (simp add: upt_conv_Cons)
    show ?thesis
    proof (cases "getPage (pdf w) i")
      case (Inl e)
      then show ?thesis
        unfolding up by (subst layout_pages.simps) (simp add: le pdf_getPage_def)
    next
      case (Inr p)
      show ?thesis
      proof (cases "getTextContent p")
        case (Inl e)
        then show ?thesis
          unfolding up
          by (subst layout_pages.simps) (simp add: le Inr pdf_getPage_def page_getViewport_def page_getTextContent_def)
      next
        case t: (Inr tc)
        let ?w2 = "w\<lparr>calls := calls w @ [GetPage i, GetViewport i (3 / 2), GetTextContent i]\<rparr>"
        let ?acc = "extractedData @ page_html N (getViewport p (3 / 2)) tc"
        have step: "layout_pages N i extractedData w = layout_pages N (i + 1) ?acc ?w2"
          by (subst layout_pages.simps) (simp add: le Inr t pdf_getPage_def page_getViewport_def page_getTextContent_def)
        have "\<exists>t. calls (snd (layout_pages N (i + 1) ?acc ?w2)) = calls ?w2 @ t \<and>
           prefix t (concat (map (\<lambda>k. [GetPage k, GetViewport k (3 / 2), GetTextContent k]) [i + 1..<Suc (numPages (pdf ?w2))]))"
          by (rule "1.IH"[OF le]) (auto simp: pdf_getPage_def page_getViewport_def page_getTextContent_def Inr t)
        then obtain t' where t': "calls (snd (layout_pages N (i + 1) ?acc ?w2)) = calls ?w2 @ t'"
          "prefix t' (concat (map (\<lambda>k. [GetPage k, GetViewport k (3 / 2), GetTextContent k]) [i + 1..<Suc (numPages (pdf w))]))"
          by auto
        show ?thesis
          unfolding step up
          by (rule exI[of _ "[GetPage i, GetViewport i (3 / 2), GetTextContent i] @ t'"]) (use t' in simp)
      qed
    qed
  qed
qed

lemma layout_pages_success_trace:
  "fst (layout_pages N i acc w) = Inr s \<Longrightarrow>
   calls (snd (layout_pages N i acc w)) =
     calls w @ concat (map (\<lambda>k. [GetPage k, GetViewport k (3 / 2), GetTextContent k]) [i..<Suc (numPages (pdf w))])"
proof (induction N i acc w rule: layout_pages.induct)
  case (1 N i extractedData w)
  show ?case
  proof (cases "i \<le> numPages (pdf w)")
    case False
    then show ?thesis by (subst layout_pages.simps) simp
  next
    case le: True
    have up: "[i..<Suc (numPages (pdf w))] = i # [i + 1..<Suc (numPages (pdf w))]"
      using le by (simp add: upt_conv_Cons)
    show ?thesis
    proof (cases "getPage (pdf w) i")
      case (Inl e)
      then have "fst (layout_pages N i extractedData w) = Inl e"
        by (subst layout_pages.simps) (simp add: le pdf_getPage_def)
      with "1.prems" show ?thesis by simp
    next
      case (Inr p)
      show ?thesis
      proof (cases "getTextContent p")
        case (Inl e)
        then have "fst (layout_pages N i extractedData w) = Inl e"
          by (subst layout_pages.simps) (simp add: le Inr pdf_getPage_def page_getViewport_def page_getTextContent_def)
        with "1.prems" show ?thesis by simp
      next
        case t: (Inr tc)
        let ?w2 = "w\<lparr>calls := calls w @ [GetPage i, GetViewport i (3 / 2), GetTextContent i]\<rparr>"
        let ?acc = "extractedData @ page_html N (getViewport p (3 / 2)) tc"
        have step: "layout_pages N i extractedData w = layout_pages N (i + 1) ?acc ?w2"
          by (subst layout_pages.simps) (simp add: le Inr t pdf_getPage_def page_getViewport_def page_getTextContent_def)
        have "calls (snd (layout_pages N (i + 1) ?acc ?w2)) =
           calls ?w2 @ concat (map (\<lambda>k. [GetPage k, GetViewport k (3 / 2), GetTextContent k]) [i + 1..<Suc (numPages (pdf ?w2))])"
          apply (rule "1.IH"[OF le])
          using "1.prems" by (auto simp: pdf_getPage_def page_getViewport_def page_getTextContent_def Inr t step)
        then show ?thesis
          unfolding step up by simp
      qed
    qed
  qed
qed

subsection \<open>Strings, logs and the examples\<close>

lemma concat_sep_join:
  "concat (map (\<lambda>x. f x @ sep) xs) = join sep (map f xs) @ (if xs = [] then [] else sep)"
  by (induction xs rule: induct_list012) simp_all

lemma filter_fetch_layout_trace:
  "filter is_fetch (concat (map (\<lambda>k. [GetPage k, GetViewport k s, GetTextContent k]) xs)) =
     concat (map (\<lambda>k. [GetPage k, GetTextContent k]) xs)"
  by (induction xs) simp_all

lemma item_html_in_range:
  assumes "5 < length (transform item)"
  shows "item_html N vp item =
           item_tpl_0 @ nshow N (transform item ! 4) @ item_tpl_1
           @ nshow N (nsub N (height vp) (transform item ! 5)) @ item_tpl_2
           @ nshow N (transform item ! 0) @ item_tpl_3 @ fontName item @ item_tpl_4
           @ str item @ item_tpl_5"
  using assms by (auto simp: item_html_def js_index_def)

lemma item_node_in_output:
  assumes ok: "\<forall>k. 1 \<le> k \<and> k \<le> numPages (pdf w) \<longrightarrow>
             getPage (pdf w) k = Inr (P k) \<and> getTextContent (P k) = Inr (T k)"
    and k: "1 \<le> k" "k \<le> numPages (pdf w)"
    and item: "item \<in> set (T k)"
  shows "\<exists>pre post. fst (extractTextFromPDF_layout N w) =
           Inr (pre @ item_html N (getViewport (P k) (3 / 2)) item @ post)"
proof -
  let ?blk = "\<lambda>k. page_html N (getViewport (P k) (3 / 2)) (T k)"
  have out: "fst (extractTextFromPDF_layout N w) =
      Inr (concat (map ?blk [1..<Suc (numPages (pdf w))]))"
    unfolding extractTextFromPDF_layout_def layout_pages_ok[OF ok] by simp
  have "[1..<Suc (numPages (pdf w))] = [1..<k] @ k # [Suc k..<Suc (numPages (pdf w))]"
  proof -
    obtain d where d: "Suc (numPages (pdf w)) = k + d" "0 < d"
      using k by (metis le_imp_less_Suc less_imp_add_positive)
    have a: "[1..<k + d] = [1..<k] @ [k..<k + d]"
      using k by (intro upt_add_eq_append) simp
    have b: "[k..<k + d] = k # [Suc k..<k + d]"
      using d by (intro upt_conv_Cons) simp
    show ?thesis
      by (simp only: d(1) a b)
  qed
  then have pages: "concat (map ?blk [1..<Suc (numPages (pdf w))]) =
      concat (map ?blk [1..<k]) @ ?blk k @ concat (map ?blk [Suc k..<Suc (numPages (pdf w))])"
    by simp
  obtain xs ys where "T k = xs @ item # ys"
    using item by (auto dest: split_list)
  then have blk: "?blk k =
      (page_open N (getViewport (P k) (3 / 2)) @ concat (map (item_html N (getViewport (P k) (3 / 2))) xs))
      @ item_html N (getViewport (P k) (3 / 2)) item
      @ (concat (map (item_html N (getViewport (P k) (3 / 2))) ys) @ ''</div>'')"
    by (simp add: page_html_eq)
  show ?thesis
    unfolding out pages blk
    by (intro exI[of _ "concat (map ?blk [1..<k]) @ page_open N (getViewport (P k) (3 / 2))
            @ concat (map (item_html N (getViewport (P k) (3 / 2))) xs)"]
          exI[of _ "(concat (map (item_html N (getViewport (P k) (3 / 2))) ys) @ ''</div>'')
            @ concat (map ?blk [Suc k..<Suc (numPages (pdf w))])"])
       (simp only: append_assoc)
qed

lemma demo_fetches:
  "\<forall>k. 1 \<le> k \<and> k \<le> numPages (pdf demo_world) \<longrightarrow>
     getPage (pdf demo_world) k = Inr (demo_page k) \<and>
     getTextContent (demo_page k) = Inr (demo_items k)"
proof (intro allI impI)
  fix k assume "1 \<le> k \<and> k \<le> numPages (pdf demo_world)"
  then have "k = 1 \<or> k = 2"
    by (auto simp: demo_world_def scenario_def doc_of_results_def)
  then show "getPage (pdf demo_world) k = Inr (demo_page k) \<and>
     getTextContent (demo_page k) = Inr (demo_items k)"
    by (auto simp: demo_world_def scenario_def doc_of_results_def demo_page_def demo_items_def
        scenario_page_def fixed_page_def)
qed

subsection \<open>The event logs\<close>

lemma issued_append: "issued (xs @ ys) = issued xs @ issued ys"
  by (induction xs rule: issued.induct) simp_all

lemma in_flight_snoc: "in_flight (es @ [x]) = in_flight_after (in_flight es) x"
  by (simp add: in_flight_def)

lemma quiet_snoc:
  assumes "quiet es" and "length (in_flight (es @ [x])) \<le> 1"
  shows "quiet (es @ [x])"
proof
  fix n
  show "length (in_flight (take n (es @ [x]))) \<le> 1"
  proof (cases "n \<le> length es")
    case True
    then show ?thesis using assms(1) by simp
  next
    case False
    then show ?thesis using assms(2) by simp
  qed
qed

lemma in_order_snoc:
  assumes "in_order es" and "set (needs y) \<subseteq> set es"
  shows "in_order (es @ [y])"
proof (intro allI impI)
  fix pre x post
  assume eq: "es @ [y] = pre @ x # post"
  show "set (needs x) \<subseteq> set pre"
  proof (cases post rule: rev_cases)
    case Nil
    with eq have "pre = es" "x = y" by simp_all
    with assms(2) show ?thesis by simp
  next
    case (snoc post' z)
    with eq have "es = pre @ x # post'" by simp
    with assms(1) show ?thesis by blast
  qed
qed

lemma step_call:
  assumes "quiet es" and "in_flight es = []" and "in_order es"
    and "set (needs (Issued c)) \<subseteq> set es"
  shows "quiet (es @ [Issued c, Settled c ok])"
    and "in_flight (es @ [Issued c, Settled c ok]) = []"
    and "in_order (es @ [Issued c, Settled c ok])"
proof -
  have a: "in_flight (es @ [Issued c]) = [c]"
    by (simp add: in_flight_snoc assms(2))
  have b: "in_flight ((es @ [Issued c]) @ [Settled c ok]) = []"
    unfolding in_flight_snoc[of "es @ [Issued c]"] a by simp
  have q1: "quiet (es @ [Issued c])"
    by (rule quiet_snoc[OF assms(1)]) (simp add: a)
  have q2: "quiet ((es @ [Issued c]) @ [Settled c ok])"
    by (rule quiet_snoc[OF q1]) (simp only: b, simp)
  have r1: "in_order (es @ [Issued c])"
    by (rule in_order_snoc[OF assms(3,4)])
  have r2: "in_order ((es @ [Issued c]) @ [Settled c ok])"
    by (rule in_order_snoc[OF r1]) simp
  show "quiet (es @ [Issued c, Settled c ok])" using q2 by simp
  show "in_flight (es @ [Issued c, Settled c ok]) = []" using b by simp
  show "in_order (es @ [Issued c, Settled c ok])" using r2 by simp
qed

lemma step_appended:
  assumes "quiet es" and "in_flight es = []" and "in_order es"
    and "Settled (GetTextContent k) True \<in> set es"
  shows "quiet (es @ [Appended k])"
    and "in_flight (es @ [Appended k]) = []"
    and "in_order (es @ [Appended k])"
proof -
  show b: "in_flight (es @ [Appended k]) = []"
    by (simp add: in_flight_snoc assms(2))
  show "quiet (es @ [Appended k])"
    by (rule quiet_snoc[OF assms(1)]) (simp only: b, simp)
  show "in_order (es @ [Appended k])"
    by (rule in_order_snoc[OF assms(3)]) (simp add: assms(4))
qed

lemma text_pages_events_inv:
  assumes "quiet es" and "in_flight es = []" and "in_order es" and "clean es"
    and "2 \<le> i \<longrightarrow> Settled (GetTextContent (i - 1)) True \<in> set es \<and> Appended (i - 1) \<in> set es"
  shows "quiet (snd (text_pages_events i acc d es))
       \<and> in_flight (snd (text_pages_events i acc d es)) = []
       \<and> in_order (snd (text_pages_events i acc d es))
       \<and> ((\<exists>s. fst (text_pages_events i acc d es) = Inr s) \<and>
             clean (snd (text_pages_events i acc d es))
          \<or> (\<exists>e c pre. fst (text_pages_events i acc d es) = Inl e \<and>
                snd (text_pages_events i acc d es) = pre @ [Settled c False] \<and> clean pre))"
  using assms
proof (induction i acc d es rule: text_pages_events.induct)
  case (1 i fullText d es)
  note q = "1.prems"(1) and f = "1.prems"(2) and o = "1.prems"(3) and c = "1.prems"(4)
    and prev = "1.prems"(5)
  show ?case
  proof (cases "i \<le> numPages d")
    case False
    then have "text_pages_events i fullText d es = (Inr fullText, es)"
      by (subst text_pages_events.simps) simp
    then show ?thesis using q f o c by simp
  next
    case le: True
    have n1: "set (needs (Issued (GetPage i))) \<subseteq> set es"
      using prev by auto
    show ?thesis
    proof (cases "getPage d i")
      case (Inl e)
      let ?es1 = "es @ [Issued (GetPage i), Settled (GetPage i) False]"
      have r: "text_pages_events i fullText d es = (Inl e, ?es1)"
        by (subst text_pages_events.simps) (simp add: le Inl await_getPage_def fulfilled_def)
      have fail: "\<exists>e' c' pre. Inl e = (Inl e' :: _ + string) \<and>
          ?es1 = pre @ [Settled c' False] \<and> clean pre"
        by (rule exI[of _ e], rule exI[of _ "GetPage i"],
            rule exI[of _ "es @ [Issued (GetPage i)]"]) (use c in simp)
      show ?thesis
        unfolding r fst_conv snd_conv
      proof (intro conjI disjI2)
        show "quiet ?es1" by (rule step_call(1)[OF q f o n1])
        show "in_flight ?es1 = []" by (rule step_call(2)[OF q f o n1])
        show "in_order ?es1" by (rule step_call(3)[OF q f o n1])
        show "\<exists>e' c' pre. Inl e = (Inl e' :: _ + string) \<and>
          ?es1 = pre @ [Settled c' False] \<and> clean pre" by (rule fail)
      qed
    next
      case (Inr p)
      let ?es1 = "es @ [Issued (GetPage i), Settled (GetPage i) True]"
      have s1: "quiet ?es1" "in_flight ?es1 = []" "in_order ?es1"
        using step_call[OF q f o n1, of True] by simp_all
      have c1: "clean ?es1" using c by simp
      have n2: "set (needs (Issued (GetTextContent i))) \<subseteq> set ?es1"
        by simp
      show ?thesis
      proof (cases "getTextContent p")
        case (Inl e)
        let ?es2 = "?es1 @ [Issued (GetTextContent i), Settled (GetTextContent i) False]"
        have r: "text_pages_events i fullText d es = (Inl e, ?es2)"
          by (subst text_pages_events.simps)
             (simp add: le Inr Inl await_getPage_def await_getTextContent_def fulfilled_def)
        have fail: "\<exists>e' c' pre. Inl e = (Inl e' :: _ + string) \<and>
            ?es2 = pre @ [Settled c' False] \<and> clean pre"
          by (rule exI[of _ e], rule exI[of _ "GetTextContent i"],
              rule exI[of _ "?es1 @ [Issued (GetTextContent i)]"]) (use c in simp)
        show ?thesis
          unfolding r fst_conv snd_conv
        proof (intro conjI disjI2)
          show "quiet ?es2" by (rule step_call(1)[OF s1 n2])
          show "in_flight ?es2 = []" by (rule step_call(2)[OF s1 n2])
          show "in_order ?es2" by (rule step_call(3)[OF s1 n2])
          show "\<exists>e' c' pre. Inl e = (Inl e' :: _ + string) \<and>
            ?es2 = pre @ [Settled c' False] \<and> clean pre" by (rule fail)
        qed
      next
        case t: (Inr tc)
        let ?es2 = "?es1 @ [Issued (GetTextContent i), Settled (GetTextContent i) True]"
        let ?es3 = "?es2 @ [Appended i]"
        let ?acc = "fullText @ join '' '' (map str tc) @ ''\<newline>\<newline>''"
        have s2: "quiet ?es2" "in_flight ?es2 = []" "in_order ?es2"
          using step_call[OF s1 n2, of True] by simp_all
        have m: "Settled (GetTextContent i) True \<in> set ?es2"
          by simp
        have s3: "quiet ?es3" "in_flight ?es3 = []" "in_order ?es3"
          using step_appended[OF s2 m] by simp_all
        have c3: "clean ?es3" using c by simp
        have p3: "2 \<le> i + 1 \<longrightarrow> Settled (GetTextContent (i + 1 - 1)) True \<in> set ?es3 \<and>
            Appended (i + 1 - 1) \<in> set ?es3"
          by simp
        have step: "text_pages_events i fullText d es = text_pages_events (i + 1) ?acc d ?es3"
          by (subst text_pages_events.simps)
             (simp add: le Inr t await_getPage_def await_getTextContent_def fulfilled_def)
        show ?thesis
          unfolding step
          apply (rule "1.IH"[OF le _ _ _ _ _ s3 c3 p3])
          by (auto simp: await_getPage_def await_getTextContent_def Inr t fulfilled_def)
      qed
    qed
  qed
qed

lemma text_pages_events_link:
  "fst (text_pages_events i acc (pdf w) es) = fst (text_pages i acc w)
   \<and> (\<exists>t. calls (snd (text_pages i acc w)) = calls w @ t \<and>
          issued (snd (text_pages_events i acc (pdf w) es)) = issued es @ t)"
proof (induction i acc w arbitrary: es rule: text_pages.induct)
  case (1 i fullText w)
  show ?case
  proof (cases "i \<le> numPages (pdf w)")
    case False
    then show ?thesis
      by (subst text_pages_events.simps, subst text_pages.simps,
          subst (2) text_pages_events.simps, subst (2) text_pages.simps) simp
  next
    case le: True
    show ?thesis
    proof (cases "getPage (pdf w) i")
      case (Inl e)
      have a: "text_pages_events i fullText (pdf w) es =
          (Inl e, es @ [Issued (GetPage i), Settled (GetPage i) False])"
        by (subst text_pages_events.simps) (simp add: le Inl await_getPage_def fulfilled_def)
      have b: "text_pages i fullText w = (Inl e, w\<lparr>calls := calls w @ [GetPage i]\<rparr>)"
        by (subst text_pages.simps) (simp add: le Inl pdf_getPage_def)
      show ?thesis unfolding a b by (simp add: issued_append)
    next
      case (Inr p)
      show ?thesis
      proof (cases "getTextContent p")
        case (Inl e)
        have a: "text_pages_events i fullText (pdf w) es =
            (Inl e, es @ [Issued (GetPage i), Settled (GetPage i) True,
                          Issued (GetTextContent i), Settled (GetTextContent i) False])"
          by (subst text_pages_events.simps)
             (simp add: le Inr Inl await_getPage_def await_getTextContent_def fulfilled_def)
        have b: "text_pages i fullText w =
            (Inl e, w\<lparr>calls := calls w @ [GetPage i, GetTextContent i]\<rparr>)"
          by (subst text_pages.simps)
             (simp add: le Inr Inl pdf_getPage_def page_getTextContent_def)
        show ?thesis unfolding a b by (simp add: issued_append)
      next
        case t: (Inr tc)
        let ?es3 = "es @ [Issued (GetPage i), Settled (GetPage i) True,
              Issued (GetTextContent i), Settled (GetTextContent i) True, Appended i]"
        let ?w2 = "w\<lparr>calls := calls w @ [GetPage i, GetTextContent i]\<rparr>"
        let ?acc = "fullText @ join '' '' (map str tc) @ ''\<newline>\<newline>''"
        have a: "text_pages_events i fullText (pdf w) es =
            text_pages_events (i + 1) ?acc (pdf w) ?es3"
          by (subst text_pages_events.simps)
             (simp add: le Inr t await_getPage_def await_getTextContent_def fulfilled_def)
        have b: "text_pages i fullText w = text_pages (i + 1) ?acc ?w2"
          by (subst text_pages.simps)
             (simp add: le Inr t pdf_getPage_def page_getTextContent_def)
        have ih0: "fst (text_pages_events (i + 1) ?acc (pdf ?w2) ?es3) =
              fst (text_pages (i + 1) ?acc ?w2)
            \<and> (\<exists>t. calls (snd (text_pages (i + 1) ?acc ?w2)) = calls ?w2 @ t \<and>
                 issued (snd (text_pages_events (i + 1) ?acc (pdf ?w2) ?es3)) = issued ?es3 @ t)"
          by (rule "1.IH"[OF le])
             (auto simp: pdf_getPage_def page_getTextContent_def Inr t)
        have same: "pdf ?w2 = pdf w" by simp
        from ih0 obtain u where
          r: "fst (text_pages_events (i + 1) ?acc (pdf w) ?es3) = fst (text_pages (i + 1) ?acc ?w2)"
          and u: "calls (snd (text_pages (i + 1) ?acc ?w2)) = calls ?w2 @ u"
          "issued (snd (text_pages_events (i + 1) ?acc (pdf w) ?es3)) = issued ?es3 @ u"
          unfolding same by blast
        show ?thesis
          unfolding a b
        proof (intro conjI exI[of _ "[GetPage i, GetTextContent i] @ u"])
          show "fst (text_pages_events (i + 1) ?acc (pdf w) ?es3) = fst (text_pages (i + 1) ?acc ?w2)"
            by (rule r)
          show "calls (snd (text_pages (i + 1) ?acc ?w2)) =
              calls w @ [GetPage i, GetTextContent i] @ u"
            using u(1) by simp
          show "issued (snd (text_pages_events (i + 1) ?acc (pdf w) ?es3)) =
              issued es @ [GetPage i, GetTextContent i] @ u"
            using u(2) by (simp add: issued_append)
        qed
      qed
    qed
  qed
qed

lemma layout_pages_events_inv:
  assumes "quiet es" and "in_flight es = []" and "in_order es" and "clean es"
    and "2 \<le> i \<longrightarrow> Settled (GetTextContent (i - 1)) True \<in> set es \<and> Appended (i - 1) \<in> set es"
  shows "quiet (snd (layout_pages_events N i acc d es))
       \<and> in_flight (snd (layout_pages_events N i acc d es)) = []
       \<and> in_order (snd (layout_pages_events N i acc d es))
       \<and> ((\<exists>s. fst (layout_pages_events N i acc d es) = Inr s) \<and>
             clean (snd (layout_pages_events N i acc d es))
          \<or> (\<exists>e c pre. fst (layout_pages_events N i acc d es) = Inl e \<and>
                snd (layout_pages_events N i acc d es) = pre @ [Settled c False] \<and> clean pre))"
  using assms
proof (induction N i acc d es rule: layout_pages_events.induct)
  case (1 N i extractedData d es)
  note q = "1.prems"(1) and f = "1.prems"(2) and o = "1.prems"(3) and c = "1.prems"(4)
    and prev = "1.prems"(5)
  show ?case
  proof (cases "i \<le> numPages d")
    case False
    then have "layout_pages_events N i extractedData d es = (Inr extractedData, es)"
      by (subst layout_pages_events.simps) simp
    then show ?thesis using q f o c by simp
  next
    case le: True
    have n1: "set (needs (Issued (GetPage i))) \<subseteq> set es"
      using prev by auto
    show ?thesis
    proof (cases "getPage d i")
      case (Inl e)
      let ?es1 = "es @ [Issued (GetPage i), Settled (GetPage i) False]"
      have r: "layout_pages_events N i extractedData d es = (Inl e, ?es1)"
        by (subst layout_pages_events.simps) (simp add: le Inl await_getPage_def fulfilled_def)
      have fail: "\<exists>e' c' pre. Inl e = (Inl e' :: _ + string) \<and>
          ?es1 = pre @ [Settled c' False] \<and> clean pre"
        by (rule exI[of _ e], rule exI[of _ "GetPage i"],
            rule exI[of _ "es @ [Issued (GetPage i)]"]) (use c in simp)
      show ?thesis
        unfolding r fst_conv snd_conv
      proof (intro conjI disjI2)
        show "quiet ?es1" by (rule step_call(1)[OF q f o n1])
        show "in_flight ?es1 = []" by (rule step_call(2)[OF q f o n1])
        show "in_order ?es1" by (rule step_call(3)[OF q f o n1])
        show "\<exists>e' c' pre. Inl e = (Inl e' :: _ + string) \<and>
          ?es1 = pre @ [Settled c' False] \<and> clean pre" by (rule fail)
      qed
    next
      case (Inr p)
      let ?es1 = "es @ [Issued (GetPage i), Settled (GetPage i) True]"
      let ?es2 = "?es1 @ [Issued (GetViewport i (3 / 2)), Settled (GetViewport i (3 / 2)) True]"
      have s1: "quiet ?es1" "in_flight ?es1 = []" "in_order ?es1"
        using step_call[OF q f o n1, of True] by simp_all
      have nv: "set (needs (Issued (GetViewport i (3 / 2)))) \<subseteq> set ?es1"
        by simp
      have s2: "quiet ?es2" "in_flight ?es2 = []" "in_order ?es2"
        using step_call[OF s1 nv, of True] by simp_all
      have n2: "set (needs (Issued (GetTextContent i))) \<subseteq> set ?es2"
        by simp
      show ?thesis
      proof (cases "getTextContent p")
        case (Inl e)
        let ?es3 = "?es2 @ [Issued (GetTextContent i), Settled (GetTextContent i) False]"
        have r: "layout_pages_events N i extractedData d es = (Inl e, ?es3)"
          by (subst layout_pages_events.simps)
             (simp add: le Inr Inl await_getPage_def call_getViewport_def
                await_getTextContent_def fulfilled_def)
        have fail: "\<exists>e' c' pre. Inl e = (Inl e' :: _ + string) \<and>
            ?es3 = pre @ [Settled c' False] \<and> clean pre"
          by (rule exI[of _ e], rule exI[of _ "GetTextContent i"],
              rule exI[of _ "?es2 @ [Issued (GetTextContent i)]"]) (use c in simp)
        show ?thesis
          unfolding r fst_conv snd_conv
        proof (intro conjI disjI2)
          show "quiet ?es3" by (rule step_call(1)[OF s2 n2])
          show "in_flight ?es3 = []" by (rule step_call(2)[OF s2 n2])
          show "in_order ?es3" by (rule step_call(3)[OF s2 n2])
          show "\<exists>e' c' pre. Inl e = (Inl e' :: _ + string) \<and>
            ?es3 = pre @ [Settled c' False] \<and> clean pre" by (rule fail)
        qed
      next
        case t: (Inr tc)
        let ?es3 = "?es2 @ [Issued (GetTextContent i), Settled (GetTextContent i) True]"
        let ?es4 = "?es3 @ [Appended i]"
        let ?acc = "extractedData @ page_html N (getViewport p (3 / 2)) tc"
        have s3: "quiet ?es3" "in_flight ?es3 = []" "in_order ?es3"
          using step_call[OF s2 n2, of True] by simp_all
        have m: "Settled (GetTextContent i) True \<in> set ?es3"
          by simp
        have s4: "quiet ?es4" "in_flight ?es4 = []" "in_order ?es4"
          using step_appended[OF s3 m] by simp_all
        have c4: "clean ?es4" using c by simp
        have p4: "2 \<le> i + 1 \<longrightarrow> Settled (GetTextContent (i + 1 - 1)) True \<in> set ?es4 \<and>
            Appended (i + 1 - 1) \<in> set ?es4"
          by simp
        have step: "layout_pages_events N i extractedData d es =
            layout_pages_events N (i + 1) ?acc d ?es4"
          by (subst layout_pages_events.simps)
             (simp add: le Inr t await_getPage_def call_getViewport_def
                await_getTextContent_def fulfilled_def)
        show ?thesis
          unfolding step
          apply (rule "1.IH"[OF le _ _ _ _ _ s4 c4 p4])
          by (auto simp: await_getPage_def call_getViewport_def await_getTextContent_def
              Inr t fulfilled_def)
      qed
    qed
  qed
qed

lemma layout_pages_events_link:
  "fst (layout_pages_events N i acc (pdf w) es) = fst (layout_pages N i acc w)
   \<and> (\<exists>t. calls (snd (layout_pages N i acc w)) = calls w @ t \<and>
          issued (snd (layout_pages_events N i acc (pdf w) es)) = issued es @ t)"
proof (induction N i acc w arbitrary: es rule: layout_pages.induct)
  case (1 N i extractedData w)
  show ?case
  proof (cases "i \<le> numPages (pdf w)")
    case False
    then show ?thesis
      by (subst layout_pages_events.simps, subst layout_pages.simps,
          subst (2) layout_pages_events.simps, subst (2) layout_pages.simps) simp
  next
    case le: True
    show ?thesis
    proof (cases "getPage (pdf w) i")
      case (Inl e)
      have a: "layout_pages_events N i extractedData (pdf w) es =
          (Inl e, es @ [Issued (GetPage i), Settled (GetPage i) False])"
        by (subst layout_pages_events.simps) (simp add: le Inl await_getPage_def fulfilled_def)
      have b: "layout_pages N i extractedData w = (Inl e, w\<lparr>calls := calls w @ [GetPage i]\<rparr>)"
        by (subst layout_pages.simps) (simp add: le Inl pdf_getPage_def)
      show ?thesis unfolding a b by (simp add: issued_append)
    next
      case (Inr p)
      show ?thesis
      proof (cases "getTextContent p")
        case (Inl e)
        have a: "layout_pages_events N i extractedData (pdf w) es =
            (Inl e, es @ [Issued (GetPage i), Settled (GetPage i) True,
                          Issued (GetViewport i (3 / 2)), Settled (GetViewport i (3 / 2)) True,
                          Issued (GetTextContent i), Settled (GetTextContent i) False])"
          by (subst layout_pages_events.simps)
             (simp add: le Inr Inl await_getPage_def call_getViewport_def
                await_getTextContent_def fulfilled_def)
        have b: "layout_pages N i extractedData w =
            (Inl e, w\<lparr>calls := calls w @ [GetPage i, GetViewport i (3 / 2), GetTextContent i]\<rparr>)"
          by (subst layout_pages.simps)
             (simp add: le Inr Inl pdf_getPage_def page_getViewport_def page_getTextContent_def)
        show ?thesis unfolding a b by (simp add: issued_append)
      next
        case t: (Inr tc)
        let ?es4 = "es @ [Issued (GetPage i), Settled (GetPage i) True,
              Issued (GetViewport i (3 / 2)), Settled (GetViewport i (3 / 2)) True,
              Issued (GetTextContent i), Settled (GetTextContent i) True, Appended i]"
        let ?cs = "[GetPage i, GetViewport i (3 / 2), GetTextContent i]"
        let ?w3 = "w\<lparr>calls := calls w @ ?cs\<rparr>"
        let ?acc = "extractedData @ page_html N (getViewport p (3 / 2)) tc"
        have a: "layout_pages_events N i extractedData (pdf w) es =
            layout_pages_events N (i + 1) ?acc (pdf w) ?es4"
          by (subst layout_pages_events.simps)
             (simp add: le Inr t await_getPage_def call_getViewport_def
                await_getTextContent_def fulfilled_def)
        have b: "layout_pages N i extractedData w = layout_pages N (i + 1) ?acc ?w3"
          by (subst layout_pages.simps)
             (simp add: le Inr t pdf_getPage_def page_getViewport_def page_getTextContent_def)
        have ih0: "fst (layout_pages_events N (i + 1) ?acc (pdf ?w3) ?es4) =
              fst (layout_pages N (i + 1) ?acc ?w3)
            \<and> (\<exists>t. calls (snd (layout_pages N (i + 1) ?acc ?w3)) = calls ?w3 @ t \<and>
                 issued (snd (layout_pages_events N (i + 1) ?acc (pdf ?w3) ?es4)) =
                   issued ?es4 @ t)"
          by (rule "1.IH"[OF le])
             (auto simp: pdf_getPage_def page_getViewport_def page_getTextContent_def Inr t)
        have same: "pdf ?w3 = pdf w" by simp
        from ih0 obtain u where
          r: "fst (layout_pages_events N (i + 1) ?acc (pdf w) ?es4) =
               fst (layout_pages N (i + 1) ?acc ?w3)"
          and u: "calls (snd (layout_pages N (i + 1) ?acc ?w3)) = calls ?w3 @ u"
          "issued (snd (layout_pages_events N (i + 1) ?acc (pdf w) ?es4)) = issued ?es4 @ u"
          unfolding same by blast
        show ?thesis
          unfolding a b
        proof (intro conjI exI[of _ "?cs @ u"])
          show "fst (layout_pages_events N (i + 1) ?acc (pdf w) ?es4) =
              fst (layout_pages N (i + 1) ?acc ?w3)"
            by (rule r)
          show "calls (snd (layout_pages N (i + 1) ?acc ?w3)) = calls w @ ?cs @ u"
            using u(1) by simp
          show "issued (snd (layout_pages_events N (i + 1) ?acc (pdf w) ?es4)) =
              issued es @ ?cs @ u"
            using u(2) by (simp add: issued_append)
        qed
      qed
    qed
  qed
qed

lemma nothing_after_rejection:
  assumes "(\<exists>s. r = Inr s) \<and> clean es
           \<or> (\<exists>e c pre. r = Inl e \<and> es = pre @ [Settled c False] \<and> clean pre)"
  shows "\<forall>pre post c. es = pre @ Settled c False # post \<longrightarrow> post = []"
proof (intro allI impI)
  fix pre post c
  assume eq: "es = pre @ Settled c False # post"
  then have mem: "Settled c False \<in> set es" by simp
  from assms show "post = []"
  proof (elim disjE conjE exE)
    assume "clean es"
    with mem show ?thesis by blast
  next
    fix e c' pre'
    assume es: "es = pre' @ [Settled c' False]" and cl: "clean pre'"
    show ?thesis
    proof (cases post rule: rev_cases)
      case Nil
      then show ?thesis .
    next
      case (snoc post' z)
      with eq es have "pre' = pre @ Settled c False # post'" by simp
      then have "Settled c False \<in> set pre'" by simp
      with cl show ?thesis by blast
    qed
  qed
qed

lemma empty_log:
  "quiet []" "in_flight [] = []" "in_order []" "clean []"
  by (simp_all add: in_flight_def)

section \<open>Text mode\<close>

text \<open>
  Claim C1. When every page and its text content can be fetched, text extraction yields
  the pages in ascending index order 1..N: each page's segment is its item texts, in
  the order of the text content, joined with one space; consecutive segments are
  separated by two newline characters (and the last one is followed by them too).
\<close>

theorem text_pages_ascending_joined:
  assumes "\<forall>k. 1 \<le> k \<and> k \<le> numPages (pdf w) \<longrightarrow>
             getPage (pdf w) k = Inr (P k) \<and> getTextContent (P k) = Inr (T k)"
  shows "fst (extractTextFromPDF_text w) =
           Inr (join ''\<newline>\<newline>''
                  (map (\<lambda>k. join '' '' (map str (T k))) [1..<Suc (numPages (pdf w))])
                @ (if numPages (pdf w) = 0 then [] else ''\<newline>\<newline>''))"
proof -
  have "fst (extractTextFromPDF_text w) =
      Inr (concat (map (\<lambda>k. join '' '' (map str (T k)) @ ''\<newline>\<newline>'')
             [1..<Suc (numPages (pdf w))]))"
    unfolding extractTextFromPDF_text_def text_pages_ok[OF assms] by simp
  also have "concat (map (\<lambda>k. join '' '' (map str (T k)) @ ''\<newline>\<newline>'')
             [1..<Suc (numPages (pdf w))]) =
      join ''\<newline>\<newline>'' (map (\<lambda>k. join '' '' (map str (T k))) [1..<Suc (numPages (pdf w))])
      @ (if [1..<Suc (numPages (pdf w))] = [] then [] else ''\<newline>\<newline>'')"
    by (rule concat_sep_join)
  also have "([1..<Suc (numPages (pdf w))] = []) = (numPages (pdf w) = 0)"
    by auto
  finally show ?thesis .
qed

theorem text_pages_ascending_joined_witness:
  "fst (extractTextFromPDF_text demo_world) = Inr ''Hello\<newline>\<newline>World\<newline>\<newline>''"
  using text_pages_ascending_joined[OF demo_fetches]
  by (simp add: demo_world_def scenario_def doc_of_results_def demo_items_def
      hello_item_def world_item_def)

text \<open>
  Claim C9. In text mode the separator is trailing: the output is the concatenation,
  over the pages, of the space-joined item texts followed by two newlines. So it ends
  with the separator when there is a page, and is empty when there is none.
\<close>

theorem text_separator_trailing:
  assumes "\<forall>k. 1 \<le> k \<and> k \<le> numPages (pdf w) \<longrightarrow>
             getPage (pdf w) k = Inr (P k) \<and> getTextContent (P k) = Inr (T k)"
  shows "fst (extractTextFromPDF_text w) =
           Inr (concat (map (\<lambda>k. join '' '' (map str (T k)) @ ''\<newline>\<newline>'')
                  [1..<Suc (numPages (pdf w))]))
         \<and> (numPages (pdf w) = 0 \<longrightarrow> fst (extractTextFromPDF_text w) = Inr [])
         \<and> (0 < numPages (pdf w) \<longrightarrow>
              (\<exists>s. fst (extractTextFromPDF_text w) = Inr (s @ ''\<newline>\<newline>'')))"
proof -
  let ?seg = "\<lambda>k. join '' '' (map str (T k)) @ ''\<newline>\<newline>''"
  have out: "fst (extractTextFromPDF_text w) =
      Inr (concat (map ?seg [1..<Suc (numPages (pdf w))]))"
    unfolding extractTextFromPDF_text_def text_pages_ok[OF assms] by simp
  have none: "numPages (pdf w) = 0 \<Longrightarrow> fst (extractTextFromPDF_text w) = Inr []"
    unfolding out by simp
  have some: "\<exists>s. fst (extractTextFromPDF_text w) = Inr (s @ ''\<newline>\<newline>'')"
    if "0 < numPages (pdf w)"
  proof -
    have "[1..<Suc (numPages (pdf w))] = [1..<numPages (pdf w)] @ [numPages (pdf w)]"
      using that by simp
    then have "concat (map ?seg [1..<Suc (numPages (pdf w))]) =
        (concat (map ?seg [1..<numPages (pdf w)]) @ join '' '' (map str (T (numPages (pdf w)))))
        @ ''\<newline>\<newline>''"
      by simp
    then show ?thesis
      unfolding out by blast
  qed
  show ?thesis
    using out none some by blast
qed

theorem text_separator_trailing_witness:
  "fst (extractTextFromPDF_text demo_world) = Inr (''Hello'' @ ''\<newline>\<newline>'' @ ''World'' @ ''\<newline>\<newline>'')
   \<and> (\<exists>s. fst (extractTextFromPDF_text demo_world) = Inr (s @ ''\<newline>\<newline>''))
   \<and> fst (extractTextFromPDF_text empty_world) = Inr []"
proof -
  have n: "0 < numPages (pdf demo_world)"
    by (simp add: demo_world_def scenario_def doc_of_results_def)
  have z: "numPages (pdf empty_world) = 0"
    by (simp add: empty_world_def doc_of_results_def)
  have h: "\<forall>k. 1 \<le> k \<and> k \<le> numPages (pdf empty_world) \<longrightarrow>
      getPage (pdf empty_world) k = Inr (demo_page k) \<and>
      getTextContent (demo_page k) = Inr (demo_items k)"
    by (simp add: z)
  from text_separator_trailing[OF demo_fetches] n
  have "fst (extractTextFromPDF_text demo_world) =
      Inr (concat (map (\<lambda>k. join '' '' (map str (demo_items k)) @ ''\<newline>\<newline>'')
             [1..<Suc (numPages (pdf demo_world))]))"
    and "\<exists>s. fst (extractTextFromPDF_text demo_world) = Inr (s @ ''\<newline>\<newline>'')"
    by blast+
  moreover from text_separator_trailing[OF h] z
  have "fst (extractTextFromPDF_text empty_world) = Inr []"
    by blast
  ultimately show ?thesis
    by (simp add: demo_world_def scenario_def doc_of_results_def demo_items_def
        hello_item_def world_item_def)
qed

section \<open>Both modes\<close>

text \<open>
  Claim C7. Pages are processed strictly one after the other. In the log of any run, in
  either mode: at no moment is more than one engine call in flight, and none is left in
  flight at the end; the fetch of page k+1 is issued only after the text content of
  page k has been fetched and the page's output appended; the text content (and the
  viewport) of a page is asked for only after the page has been fetched; nothing is
  issued after a rejection. The calls issued are the calls of the extraction, and on
  success they are getPage(1), getTextContent, getPage(2), getTextContent, ... in
  ascending order up to the page count (in layout mode with the viewport read between
  the two fetches of a page).
\<close>

theorem pages_fetched_sequentially:
  "(\<forall>n. length (in_flight (take n (snd (extractTextFromPDF_text_events (pdf w))))) \<le> 1)
   \<and> in_flight (snd (extractTextFromPDF_text_events (pdf w))) = []
   \<and> (\<forall>pre post k. snd (extractTextFromPDF_text_events (pdf w)) = pre @ Issued (GetPage (Suc k)) # post
          \<and> 1 \<le> k \<longrightarrow>
          Settled (GetTextContent k) True \<in> set pre \<and> Appended k \<in> set pre)
   \<and> (\<forall>pre post k. snd (extractTextFromPDF_text_events (pdf w)) = pre @ Issued (GetTextContent k) # post
          \<longrightarrow> Settled (GetPage k) True \<in> set pre)
   \<and> (\<forall>pre post c. snd (extractTextFromPDF_text_events (pdf w)) = pre @ Settled c False # post
          \<longrightarrow> post = [])
   \<and> fst (extractTextFromPDF_text_events (pdf w)) = fst (extractTextFromPDF_text w)
   \<and> calls (snd (extractTextFromPDF_text w)) =
       calls w @ issued (snd (extractTextFromPDF_text_events (pdf w)))
   \<and> (\<forall>s. fst (extractTextFromPDF_text w) = Inr s \<longrightarrow>
          issued (snd (extractTextFromPDF_text_events (pdf w))) =
            concat (map (\<lambda>k. [GetPage k, GetTextContent k]) [1..<Suc (numPages (pdf w))]))
   \<and> (\<forall>n. length (in_flight (take n (snd (extractTextFromPDF_layout_events N (pdf w))))) \<le> 1)
   \<and> in_flight (snd (extractTextFromPDF_layout_events N (pdf w))) = []
   \<and> (\<forall>pre post k. snd (extractTextFromPDF_layout_events N (pdf w)) = pre @ Issued (GetPage (Suc k)) # post
          \<and> 1 \<le> k \<longrightarrow>
          Settled (GetTextContent k) True \<in> set pre \<and> Appended k \<in> set pre)
   \<and> (\<forall>pre post k scale. snd (extractTextFromPDF_layout_events N (pdf w)) =
            pre @ Issued (GetViewport k scale) # post
          \<longrightarrow> Settled (GetPage k) True \<in> set pre)
   \<and> (\<forall>pre post k. snd (extractTextFromPDF_layout_events N (pdf w)) = pre @ Issued (GetTextContent k) # post
          \<longrightarrow> Settled (GetPage k) True \<in> set pre)
   \<and> (\<forall>pre post c. snd (extractTextFromPDF_layout_events N (pdf w)) = pre @ Settled c False # post
          \<longrightarrow> post = [])
   \<and> fst (extractTextFromPDF_layout_events N (pdf w)) = fst (extractTextFromPDF_layout N w)
   \<and> calls (snd (extractTextFromPDF_layout N w)) =
       calls w @ issued (snd (extractTextFromPDF_layout_events N (pdf w)))
   \<and> (\<forall>s. fst (extractTextFromPDF_layout N w) = Inr s \<longrightarrow>
          issued (snd (extractTextFromPDF_layout_events N (pdf w))) =
            concat (map (\<lambda>k. [GetPage k, GetViewport k (3 / 2), GetTextContent k])
              [1..<Suc (numPages (pdf w))])
          \<and> filter is_fetch (issued (snd (extractTextFromPDF_layout_events N (pdf w)))) =
            concat (map (\<lambda>k. [GetPage k, GetTextContent k]) [1..<Suc (numPages (pdf w))]))"
proof -
  let ?T = "text_pages_events 1 [] (pdf w) []"
  let ?L = "layout_pages_events N 1 [] (pdf w) []"
  have first: "2 \<le> (1::nat) \<longrightarrow> Settled (GetTextContent (1 - 1)) True \<in> set [] \<and>
      Appended (1 - 1) \<in> set []"
    by simp
  note ti = text_pages_events_inv[OF empty_log first, of "[]" "pdf w"]
  note li = layout_pages_events_inv[OF empty_log first, of N "[]" "pdf w"]
  note tq = ti[THEN conjunct1]
  note tf = ti[THEN conjunct2, THEN conjunct1]
  note tor = ti[THEN conjunct2, THEN conjunct2, THEN conjunct1]
  note tc = ti[THEN conjunct2, THEN conjunct2, THEN conjunct2]
  note lq = li[THEN conjunct1]
  note lf = li[THEN conjunct2, THEN conjunct1]
  note lor = li[THEN conjunct2, THEN conjunct2, THEN conjunct1]
  note lc = li[THEN conjunct2, THEN conjunct2, THEN conjunct2]
  have t2: "\<forall>pre post k. snd ?T = pre @ Issued (GetPage (Suc k)) # post \<and> 1 \<le> k \<longrightarrow>
      Settled (GetTextContent k) True \<in> set pre \<and> Appended k \<in> set pre"
  proof (intro allI impI)
    fix pre post k
    assume h: "snd ?T = pre @ Issued (GetPage (Suc k)) # post \<and> 1 \<le> k"
    then have "set (needs (Issued (GetPage (Suc k)))) \<subseteq> set pre"
      using tor[rule_format, of pre "Issued (GetPage (Suc k))" post] by simp
    with h show "Settled (GetTextContent k) True \<in> set pre \<and> Appended k \<in> set pre"
      by simp
  qed
  have t3: "\<forall>pre post k. snd ?T = pre @ Issued (GetTextContent k) # post \<longrightarrow>
      Settled (GetPage k) True \<in> set pre"
  proof (intro allI impI)
    fix pre post k
    assume h: "snd ?T = pre @ Issued (GetTextContent k) # post"
    then have "set (needs (Issued (GetTextContent k))) \<subseteq> set pre"
      using tor[rule_format, of pre "Issued (GetTextContent k)" post] by simp
    then show "Settled (GetPage k) True \<in> set pre" by simp
  qed
  have l2: "\<forall>pre post k. snd ?L = pre @ Issued (GetPage (Suc k)) # post \<and> 1 \<le> k \<longrightarrow>
      Settled (GetTextContent k) True \<in> set pre \<and> Appended k \<in> set pre"
  proof (intro allI impI)
    fix pre post k
    assume h: "snd ?L = pre @ Issued (GetPage (Suc k)) # post \<and> 1 \<le> k"
    then have "set (needs (Issued (GetPage (Suc k)))) \<subseteq> set pre"
      using lor[rule_format, of pre "Issued (GetPage (Suc k))" post] by simp
    with h show "Settled (GetTextContent k) True \<in> set pre \<and> Appended k \<in> set pre"
      by simp
  qed
  have lv: "\<forall>pre post k scale. snd ?L = pre @ Issued (GetViewport k scale) # post \<longrightarrow>
      Settled (GetPage k) True \<in> set pre"
  proof (intro allI impI)
    fix pre post k scale
    assume h: "snd ?L = pre @ Issued (GetViewport k scale) # post"
    then have "set (needs (Issued (GetViewport k scale))) \<subseteq> set pre"
      using lor[rule_format, of pre "Issued (GetViewport k scale)" post] by simp
    then show "Settled (GetPage k) True \<in> set pre" by simp
  qed
  have l3: "\<forall>pre post k. snd ?L = pre @ Issued (GetTextContent k) # post \<longrightarrow>
      Settled (GetPage k) True \<in> set pre"
  proof (intro allI impI)
    fix pre post k
    assume h: "snd ?L = pre @ Issued (GetTextContent k) # post"
    then have "set (needs (Issued (GetTextContent k))) \<subseteq> set pre"
      using lor[rule_format, of pre "Issued (GetTextContent k)" post] by simp
    then show "Settled (GetPage k) True \<in> set pre" by simp
  qed
  note t4 = nothing_after_rejection[OF tc]
  note l4 = nothing_after_rejection[OF lc]
  note tl = text_pages_events_link[of 1 "[]" w "[]"]
  note ll = layout_pages_events_link[of N 1 "[]" w "[]"]
  note t5 = tl[THEN conjunct1]
  note l5 = ll[THEN conjunct1]
  have t6: "calls (snd (text_pages 1 [] w)) = calls w @ issued (snd ?T)"
    using tl[THEN conjunct2] by simp
  have l6: "calls (snd (layout_pages N 1 [] w)) = calls w @ issued (snd ?L)"
    using ll[THEN conjunct2] by simp
  have t7: "\<forall>s. fst (text_pages 1 [] w) = Inr s \<longrightarrow> issued (snd ?T) =
      concat (map (\<lambda>k. [GetPage k, GetTextContent k]) [1..<Suc (numPages (pdf w))])"
  proof (intro allI impI)
    fix s assume "fst (text_pages 1 [] w) = Inr s"
    from text_pages_success_trace[OF this] t6
    show "issued (snd ?T) =
        concat (map (\<lambda>k. [GetPage k, GetTextContent k]) [1..<Suc (numPages (pdf w))])"
      by simp
  qed
  have l7: "\<forall>s. fst (layout_pages N 1 [] w) = Inr s \<longrightarrow>
      issued (snd ?L) =
        concat (map (\<lambda>k. [GetPage k, GetViewport k (3 / 2), GetTextContent k])
          [1..<Suc (numPages (pdf w))])
      \<and> filter is_fetch (issued (snd ?L)) =
        concat (map (\<lambda>k. [GetPage k, GetTextContent k]) [1..<Suc (numPages (pdf w))])"
  proof (intro allI impI)
    fix s assume "fst (layout_pages N 1 [] w) = Inr s"
    from layout_pages_success_trace[OF this] l6
    have eq: "issued (snd ?L) =
        concat (map (\<lambda>k. [GetPage k, GetViewport k (3 / 2), GetTextContent k])
          [1..<Suc (numPages (pdf w))])"
      by simp
    show "issued (snd ?L) =
        concat (map (\<lambda>k. [GetPage k, GetViewport k (3 / 2), GetTextContent k])
          [1..<Suc (numPages (pdf w))])
      \<and> filter is_fetch (issued (snd ?L)) =
        concat (map (\<lambda>k. [GetPage k, GetTextContent k]) [1..<Suc (numPages (pdf w))])"
      unfolding eq filter_fetch_layout_trace by simp
  qed
  show ?thesis
    unfolding extractTextFromPDF_text_events_def extractTextFromPDF_layout_events_def
      extractTextFromPDF_text_def extractTextFromPDF_layout_def
    apply (intro conjI)
    apply (rule tq)
    apply (rule tf)
    apply (rule t2)
    apply (rule t3)
    apply (rule t4)
    apply (rule t5)
    apply (rule t6)
    apply (rule t7)
    apply (rule lq)
    apply (rule lf)
    apply (rule l2)
    apply (rule lv)
    apply (rule l3)
    apply (rule l4)
    apply (rule l5)
    apply (rule l6)
    apply (rule l7)
    done
qed

theorem pages_fetched_sequentially_witness:
  "issued (snd (extractTextFromPDF_text_events (pdf demo_world))) =
     [GetPage 1, GetTextContent 1, GetPage 2, GetTextContent 2]
   \<and> snd (extractTextFromPDF_text_events (pdf demo_world)) =
       [Issued (GetPage 1), Settled (GetPage 1) True,
        Issued (GetTextContent 1), Settled (GetTextContent 1) True, Appended 1]
       @ Issued (GetPage (Suc 1))
       # [Settled (GetPage 2) True,
          Issued (GetTextContent 2), Settled (GetTextContent 2) True, Appended 2]
   \<and> Settled (GetTextContent 1) True \<in>
       set [Issued (GetPage 1), Settled (GetPage 1) True,
            Issued (GetTextContent 1), Settled (GetTextContent 1) True, Appended 1]
   \<and> length (in_flight (take 3 (snd (extractTextFromPDF_text_events (pdf demo_world))))) \<le> 1
   \<and> filter is_fetch (issued (snd (extractTextFromPDF_layout_events int_ops (pdf demo_world)))) =
       [GetPage 1, GetTextContent 1, GetPage 2, GetTextContent 2]
   \<and> snd (extractTextFromPDF_layout_events int_ops (pdf unreadable_world)) =
       [Issued (GetPage 1), Settled (GetPage 1) True,
        Issued (GetViewport 1 (3 / 2)), Settled (GetViewport 1 (3 / 2)) True,
        Issued (GetTextContent 1), Settled (GetTextContent 1) True, Appended 1,
        Issued (GetPage 2), Settled (GetPage 2) True,
        Issued (GetViewport 2 (3 / 2)), Settled (GetViewport 2 (3 / 2)) True,
        Issued (GetTextContent 2)]
       @ Settled (GetTextContent 2) False # []
   \<and> calls (snd (extractTextFromPDF_layout int_ops unreadable_world)) =
       [GetPage 1, GetViewport 1 (3 / 2), GetTextContent 1,
        GetPage 2, GetViewport 2 (3 / 2), GetTextContent 2]"
proof -
  note c2 = conjunct2
  note T = pages_fetched_sequentially[of demo_world int_ops]
  note U = pages_fetched_sequentially[of unreadable_world int_ops]
  let ?pre = "[Issued (GetPage 1), Settled (GetPage 1) True,
        Issued (GetTextContent 1), Settled (GetTextContent 1) True, Appended 1]"
  let ?post = "[Settled (GetPage 2) True,
          Issued (GetTextContent 2), Settled (GetTextContent 2) True, Appended 2]"
  let ?upre = "[Issued (GetPage 1), Settled (GetPage 1) True,
        Issued (GetViewport 1 (3 / 2)), Settled (GetViewport 1 (3 / 2)) True,
        Issued (GetTextContent 1), Settled (GetTextContent 1) True, Appended 1,
        Issued (GetPage 2), Settled (GetPage 2) True,
        Issued (GetViewport 2 (3 / 2)), Settled (GetViewport 2 (3 / 2)) True,
        Issued (GetTextContent 2)]"
  have n: "[1..<Suc (numPages (pdf demo_world))] = [1, 2]"
    by code_simp
  have et: "snd (extractTextFromPDF_text_events (pdf demo_world)) =
      ?pre @ Issued (GetPage (Suc 1)) # ?post"
    by (simp add: extractTextFromPDF_text_events_def text_pages_events.simps demo_world_def
        scenario_def doc_of_results_def scenario_page_def fixed_page_def hello_item_def
        world_item_def await_getPage_def await_getTextContent_def fulfilled_def)
  have rt: "fst (extractTextFromPDF_text demo_world) = Inr ''Hello\<newline>\<newline>World\<newline>\<newline>''"
    by (simp add: extractTextFromPDF_text_def text_pages.simps demo_world_def scenario_def
        doc_of_results_def scenario_page_def fixed_page_def hello_item_def world_item_def
        pdf_getPage_def page_getTextContent_def)
  have rl: "fst (extractTextFromPDF_layout int_ops demo_world) =
      Inr ([] @ concat (map (\<lambda>k. page_html int_ops (getViewport (demo_page k) (3 / 2)) (demo_items k))
             [1..<Suc (numPages (pdf demo_world))]))"
    unfolding extractTextFromPDF_layout_def layout_pages_ok[OF demo_fetches] by simp
  have eu: "snd (extractTextFromPDF_layout_events int_ops (pdf unreadable_world)) =
      ?upre @ Settled (GetTextContent 2) False # []"
    by (simp add: extractTextFromPDF_layout_events_def layout_pages_events.simps
        unreadable_world_def unreadable_page_def doc_of_results_def demo_page_def
        scenario_page_def fixed_page_def await_getPage_def call_getViewport_def
        await_getTextContent_def fulfilled_def)
  have w1: "issued (snd (extractTextFromPDF_text_events (pdf demo_world))) =
      [GetPage 1, GetTextContent 1, GetPage 2, GetTextContent 2]"
    using T[THEN c2, THEN c2, THEN c2, THEN c2, THEN c2, THEN c2, THEN c2, THEN conjunct1,
        rule_format, OF rt]
    unfolding n by simp
  have k: "(1::nat) \<le> 1" by simp
  have w2: "Settled (GetTextContent 1) True \<in> set ?pre"
    using T[THEN c2, THEN c2, THEN conjunct1, rule_format, OF conjI[OF et k]]
    by (rule conjunct1)
  have w3: "length (in_flight (take 3 (snd (extractTextFromPDF_text_events (pdf demo_world))))) \<le> 1"
    by (rule T[THEN conjunct1, rule_format])
  have w4: "filter is_fetch (issued (snd (extractTextFromPDF_layout_events int_ops (pdf demo_world)))) =
      [GetPage 1, GetTextContent 1, GetPage 2, GetTextContent 2]"
    using T[THEN c2, THEN c2, THEN c2, THEN c2, THEN c2, THEN c2, THEN c2, THEN c2,
        THEN c2, THEN c2, THEN c2, THEN c2, THEN c2, THEN c2, THEN c2, THEN c2,
        rule_format, OF rl, THEN conjunct2]
    unfolding n by simp
  have w5: "[] = ([] :: event list)"
    by (rule sym, rule U[THEN c2, THEN c2, THEN c2, THEN c2, THEN c2, THEN c2, THEN c2, THEN c2,
        THEN c2, THEN c2, THEN c2, THEN c2, THEN c2, THEN conjunct1, rule_format, OF eu])
  have w6: "calls (snd (extractTextFromPDF_layout int_ops unreadable_world)) =
      [GetPage 1, GetViewport 1 (3 / 2), GetTextContent 1,
       GetPage 2, GetViewport 2 (3 / 2), GetTextContent 2]"
    using U[THEN c2, THEN c2, THEN c2, THEN c2, THEN c2, THEN c2, THEN c2, THEN c2,
        THEN c2, THEN c2, THEN c2, THEN c2, THEN c2, THEN c2, THEN c2, THEN conjunct1]
    unfolding eu by (simp add: unreadable_world_def)
  show ?thesis
    using w1 et w2 w3 w4 eu w6 by (intro conjI)
qed

text \<open>
  Claim C6. Extraction is repeatable and read-only: a second run, started where the
  first one ended, gives the same outcome; the document is the same after a run as
  before it; and the only change of state is that engine calls were appended to the log.
\<close>

theorem extraction_repeatable_and_read_only:
  "fst (extractTextFromPDF_text (snd (extractTextFromPDF_text w))) = fst (extractTextFromPDF_text w)
   \<and> pdf (snd (extractTextFromPDF_text w)) = pdf w
   \<and> (\<exists>t. snd (extractTextFromPDF_text w) = w\<lparr>calls := calls w @ t\<rparr>)
   \<and> fst (extractTextFromPDF_layout N (snd (extractTextFromPDF_layout N w)))
       = fst (extractTextFromPDF_layout N w)
   \<and> pdf (snd (extractTextFromPDF_layout N w)) = pdf w
   \<and> (\<exists>t. snd (extractTextFromPDF_layout N w) = w\<lparr>calls := calls w @ t\<rparr>)"
proof -
  have a: "pdf (snd (text_pages 1 [] w)) = pdf w" by (rule pdf_text_pages)
  have b: "pdf (snd (layout_pages N 1 [] w)) = pdf w" by (rule pdf_layout_pages)
  obtain t where t: "calls (snd (text_pages 1 [] w)) = calls w @ t"
    using text_pages_trace_prefix[of 1 "[]" w] by blast
  obtain u where u: "calls (snd (layout_pages N 1 [] w)) = calls w @ u"
    using layout_pages_trace_prefix[of N 1 "[]" w] by blast
  have c: "snd (text_pages 1 [] w) = w\<lparr>calls := calls w @ t\<rparr>"
    using a t by (intro world.equality) simp_all
  have d: "snd (layout_pages N 1 [] w) = w\<lparr>calls := calls w @ u\<rparr>"
    using b u by (intro world.equality) simp_all
  show ?thesis
    unfolding extractTextFromPDF_text_def extractTextFromPDF_layout_def
    using text_pages_same_doc[OF a, of 1 "[]"] layout_pages_same_doc[OF b, of N 1 "[]"] a b c d
    by blast
qed

section \<open>Layout mode\<close>

text \<open>
  Claim C2. The Y-axis flip: for an item with \<open>transform[5] = t\<close> on a page whose
  viewport (as the code requested it) has height \<open>H\<close>, the node emitted for the item
  carries, as its \<open>top\<close> offset, the text of \<open>H - t\<close>, the host's subtraction applied
  to exactly these two numbers.
\<close>

theorem layout_top_is_height_minus_y:
  assumes "\<forall>k. 1 \<le> k \<and> k \<le> numPages (pdf w) \<longrightarrow>
             getPage (pdf w) k = Inr (P k) \<and> getTextContent (P k) = Inr (T k)"
    and "1 \<le> k" and "k \<le> numPages (pdf w)"
    and "item \<in> set (T k)"
    and "5 < length (transform item)" and "transform item ! 5 = t"
    and "height (getViewport (P k) (3 / 2)) = H"
  shows "\<exists>pre post. fst (extractTextFromPDF_layout N w) =
           Inr (pre @ item_tpl_0 @ nshow N (transform item ! 4)
                @ item_tpl_1 @ nshow N (nsub N H t)
                @ item_tpl_2 @ nshow N (transform item ! 0)
                @ item_tpl_3 @ fontName item @ item_tpl_4 @ str item @ item_tpl_5 @ post)"
proof -
  obtain pre post where "fst (extractTextFromPDF_layout N w) =
      Inr (pre @ item_html N (getViewport (P k) (3 / 2)) item @ post)"
    using item_node_in_output[OF assms(1-4)] by blast
  then have "fst (extractTextFromPDF_layout N w) =
      Inr (pre @ item_tpl_0 @ nshow N (transform item ! 4)
           @ item_tpl_1 @ nshow N (nsub N H t)
           @ item_tpl_2 @ nshow N (transform item ! 0)
           @ item_tpl_3 @ fontName item @ item_tpl_4 @ str item @ item_tpl_5 @ post)"
    by (simp add: item_html_in_range[OF assms(5)] assms(6,7))
  then show ?thesis by blast
qed

theorem layout_top_is_height_minus_y_witness:
  "\<exists>pre post. fst (extractTextFromPDF_layout int_ops demo_world) =
     Inr (pre @ item_tpl_0 @ ''10'' @ item_tpl_1 @ ''12'' @ item_tpl_2 @ ''12''
          @ item_tpl_3 @ ''Helvetica'' @ item_tpl_4 @ ''Hello'' @ item_tpl_5 @ post)"
proof -
  have i: "hello_item ''Helvetica'' \<in> set (demo_items 1)"
    by (simp add: demo_items_def)
  have n: "(1::nat) \<le> 1" "1 \<le> numPages (pdf demo_world)"
    by (simp_all add: demo_world_def scenario_def doc_of_results_def)
  have l: "5 < length (transform (hello_item ''Helvetica''))"
    and t: "transform (hello_item ''Helvetica'') ! 5 = Some 780"
    by (simp_all add: hello_item_def)
  have h: "height (getViewport (demo_page 1) (3 / 2)) = Some 792"
    by (simp add: demo_page_def scenario_page_def fixed_page_def)
  have d: "digits 10 = ''10''" "digits 12 = ''12''"
    by code_simp+
  show ?thesis
    using layout_top_is_height_minus_y[OF demo_fetches n i l t h, of int_ops]
    by (simp add: hello_item_def int_ops_def show_int_def d)
qed

text \<open>
  Claim C3. When every fetch succeeds, layout extraction yields one page container per
  page, for the pages 1..N in ascending order, concatenated with nothing between them;
  the width and height declared by each container are those of that page's viewport.
\<close>

theorem layout_one_container_per_page:
  assumes "\<forall>k. 1 \<le> k \<and> k \<le> numPages (pdf w) \<longrightarrow>
             getPage (pdf w) k = Inr (P k) \<and> getTextContent (P k) = Inr (T k)"
  shows "fst (extractTextFromPDF_layout N w) =
           Inr (concat (map
             (\<lambda>k. page_tpl_0 @ nshow N (width (getViewport (P k) (3 / 2)))
                  @ page_tpl_1 @ nshow N (height (getViewport (P k) (3 / 2)))
                  @ page_tpl_2
                  @ concat (map (item_html N (getViewport (P k) (3 / 2))) (T k))
                  @ ''</div>'')
             [1..<Suc (numPages (pdf w))]))"
  unfolding extractTextFromPDF_layout_def layout_pages_ok[OF assms]
  by (simp add: page_html_eq page_open_def)

theorem layout_one_container_per_page_witness:
  "fst (extractTextFromPDF_layout int_ops demo_world) =
     Inr ((page_tpl_0 @ ''918'' @ page_tpl_1 @ ''792'' @ page_tpl_2
           @ item_html int_ops \<lparr>width = Some 918, height = Some 792\<rparr> (hello_item ''Helvetica'')
           @ ''</div>'')
          @ (page_tpl_0 @ ''750'' @ page_tpl_1 @ ''500'' @ page_tpl_2
           @ item_html int_ops \<lparr>width = Some 750, height = Some 500\<rparr> (world_item ''Courier'')
           @ ''</div>''))"
proof -
  have d: "digits 918 = ''918''" "digits 792 = ''792''" "digits 750 = ''750''"
    "digits 500 = ''500''"
    by code_simp+
  have n: "[1..<Suc (numPages (pdf demo_world))] = [1, 2]"
    by code_simp
  show ?thesis
    using layout_one_container_per_page[OF demo_fetches, of int_ops, unfolded n]
    by (simp add: demo_page_def demo_items_def scenario_page_def fixed_page_def
        int_ops_def show_int_def d)
qed

text \<open>
  Claim C8. Layout mode does no escaping: the node of every item contains the
  characters of the item's font name and of its text exactly as they are, whatever they
  are, between the fixed pieces of the template.
\<close>

theorem layout_text_and_font_verbatim:
  assumes "\<forall>k. 1 \<le> k \<and> k \<le> numPages (pdf w) \<longrightarrow>
             getPage (pdf w) k = Inr (P k) \<and> getTextContent (P k) = Inr (T k)"
    and "1 \<le> k" and "k \<le> numPages (pdf w)"
    and "item \<in> set (T k)"
  shows "\<exists>pre post. fst (extractTextFromPDF_layout N w) =
           Inr (pre @ item_tpl_3 @ fontName item @ item_tpl_4 @ str item @ item_tpl_5 @ post)"
proof -
  obtain pre post where out: "fst (extractTextFromPDF_layout N w) =
      Inr (pre @ item_html N (getViewport (P k) (3 / 2)) item @ post)"
    using item_node_in_output[OF assms] by blast
  define a where "a = item_tpl_0 @ to_string N (js_index (transform item) 4) @ item_tpl_1
      @ nshow N (nsub N (height (getViewport (P k) (3 / 2)))
                   (to_number N (js_index (transform item) 5)))
      @ item_tpl_2 @ to_string N (js_index (transform item) 0)"
  have "item_html N (getViewport (P k) (3 / 2)) item =
      a @ item_tpl_3 @ fontName item @ item_tpl_4 @ str item @ item_tpl_5"
    by (simp add: item_html_def Let_def a_def)
  with out have "fst (extractTextFromPDF_layout N w) =
      Inr ((pre @ a) @ item_tpl_3 @ fontName item @ item_tpl_4 @ str item @ item_tpl_5 @ post)"
    by simp
  then show ?thesis by blast
qed

theorem layout_text_and_font_verbatim_witness:
  \<open>\<exists>pre post. fst (extractTextFromPDF_layout int_ops markup_world) =
     Inr (pre @ item_tpl_3 @ ''x"><i>'' @ item_tpl_4 @ ''a<b&c'' @ item_tpl_5 @ post)\<close>
proof -
  have h: "\<forall>k. 1 \<le> k \<and> k \<le> numPages (pdf markup_world) \<longrightarrow>
      getPage (pdf markup_world) k = Inr ((\<lambda>k. markup_page) k) \<and>
      getTextContent ((\<lambda>k. markup_page) k) = Inr ((\<lambda>k. [markup_item]) k)"
    by (simp add: markup_world_def doc_of_results_def markup_page_def fixed_page_def)
  have n: "(1::nat) \<le> 1" "1 \<le> numPages (pdf markup_world)"
    by (simp_all add: markup_world_def doc_of_results_def)
  have i: "markup_item \<in> set ((\<lambda>k. [markup_item]) (1::nat))"
    by simp
  show ?thesis
    using layout_text_and_font_verbatim[OF h n i, of int_ops]
    by (simp add: markup_item_def)
qed

text \<open>
  Claim C10. The viewport is requested at the fixed scale 1.5. The width and height a
  page container declares, and the height from which an item's y is subtracted, are
  those of the viewport at that scale; the item's x offset (\<open>transform[4]\<close>), the y
  that is subtracted (\<open>transform[5]\<close>) and the font size (\<open>transform[0]\<close>) are the
  numbers of the item's transform as they are, with no scale applied to them.
\<close>

theorem layout_box_scaled_items_unscaled:
  assumes "\<forall>k. 1 \<le> k \<and> k \<le> numPages (pdf w) \<longrightarrow>
             getPage (pdf w) k = Inr (P k) \<and> getTextContent (P k) = Inr (T k)"
    and "\<forall>k item. 1 \<le> k \<and> k \<le> numPages (pdf w) \<and> item \<in> set (T k) \<longrightarrow>
             5 < length (transform item)"
  shows "fst (extractTextFromPDF_layout N w) =
           Inr (concat (map
             (\<lambda>k. page_tpl_0 @ nshow N (width (getViewport (P k) (3 / 2)))
                  @ page_tpl_1 @ nshow N (height (getViewport (P k) (3 / 2)))
                  @ page_tpl_2
                  @ concat (map
                      (\<lambda>item. item_tpl_0 @ nshow N (transform item ! 4)
                         @ item_tpl_1
                         @ nshow N (nsub N (height (getViewport (P k) (3 / 2)))
                                      (transform item ! 5))
                         @ item_tpl_2 @ nshow N (transform item ! 0)
                         @ item_tpl_3 @ fontName item @ item_tpl_4 @ str item @ item_tpl_5)
                      (T k))
                  @ ''</div>'')
             [1..<Suc (numPages (pdf w))]))
         \<and> calls (snd (extractTextFromPDF_layout N w)) =
             calls w @ concat (map (\<lambda>k. [GetPage k, GetViewport k (3 / 2), GetTextContent k])
                                 [1..<Suc (numPages (pdf w))])"
proof -
  have items: "map (item_html N (getViewport (P k) (3 / 2))) (T k) =
      map (\<lambda>item. item_tpl_0 @ nshow N (transform item ! 4)
             @ item_tpl_1
             @ nshow N (nsub N (height (getViewport (P k) (3 / 2))) (transform item ! 5))
             @ item_tpl_2 @ nshow N (transform item ! 0)
             @ item_tpl_3 @ fontName item @ item_tpl_4 @ str item @ item_tpl_5) (T k)"
    if "k \<in> set [1..<Suc (numPages (pdf w))]" for k
  proof (rule map_cong[OF refl])
    fix item assume "item \<in> set (T k)"
    moreover from that have "1 \<le> k \<and> k \<le> numPages (pdf w)"
      by (simp del: upt_Suc)
    ultimately have "5 < length (transform item)"
      using assms(2) by blast
    then show "item_html N (getViewport (P k) (3 / 2)) item =
        item_tpl_0 @ nshow N (transform item ! 4) @ item_tpl_1
        @ nshow N (nsub N (height (getViewport (P k) (3 / 2))) (transform item ! 5))
        @ item_tpl_2 @ nshow N (transform item ! 0)
        @ item_tpl_3 @ fontName item @ item_tpl_4 @ str item @ item_tpl_5"
      by (rule item_html_in_range)
  qed
  have blocks: "map (\<lambda>k. page_html N (getViewport (P k) (3 / 2)) (T k)) [1..<Suc (numPages (pdf w))] =
      map (\<lambda>k. page_tpl_0 @ nshow N (width (getViewport (P k) (3 / 2)))
                  @ page_tpl_1 @ nshow N (height (getViewport (P k) (3 / 2)))
                  @ page_tpl_2
                  @ concat (map
                      (\<lambda>item. item_tpl_0 @ nshow N (transform item ! 4)
                         @ item_tpl_1
                         @ nshow N (nsub N (height (getViewport (P k) (3 / 2)))
                                      (transform item ! 5))
                         @ item_tpl_2 @ nshow N (transform item ! 0)
                         @ item_tpl_3 @ fontName item @ item_tpl_4 @ str item @ item_tpl_5)
                      (T k))
                  @ ''</div>'') [1..<Suc (numPages (pdf w))]"
    by (rule map_cong[OF refl]) (simp only: page_html_eq page_open_def items append_assoc)
  show ?thesis
    unfolding extractTextFromPDF_layout_def layout_pages_ok[OF assms(1)] blocks
    by simp
qed

theorem layout_box_scaled_items_unscaled_witness:
  "fst (extractTextFromPDF_layout int_ops letter_world) =
     Inr (page_tpl_0 @ ''918'' @ page_tpl_1 @ ''1188'' @ page_tpl_2
          @ item_tpl_0 @ ''10'' @ item_tpl_1 @ ''408'' @ item_tpl_2 @ ''12''
          @ item_tpl_3 @ ''Helvetica'' @ item_tpl_4 @ ''Hello'' @ item_tpl_5
          @ ''</div>'')
   \<and> calls (snd (extractTextFromPDF_layout int_ops letter_world)) =
       [GetPage 1, GetViewport 1 (3 / 2), GetTextContent 1]"
proof -
  have h: "\<forall>k. 1 \<le> k \<and> k \<le> numPages (pdf letter_world) \<longrightarrow>
      getPage (pdf letter_world) k = Inr ((\<lambda>k. letter_page) k) \<and>
      getTextContent ((\<lambda>k. letter_page) k) = Inr ((\<lambda>k. [hello_item ''Helvetica'']) k)"
    by (simp add: letter_world_def doc_of_results_def letter_page_def)
  have l: "\<forall>k item. 1 \<le> k \<and> k \<le> numPages (pdf letter_world) \<and>
      item \<in> set ((\<lambda>k. [hello_item ''Helvetica'']) k) \<longrightarrow> 5 < length (transform item)"
    by (simp add: hello_item_def)
  have n: "[1..<Suc (numPages (pdf letter_world))] = [1]"
    by code_simp
  have d: "digits 918 = ''918''" "digits 1188 = ''1188''" "digits 10 = ''10''"
    "digits 408 = ''408''" "digits 12 = ''12''"
    by code_simp+
  have f: "\<lfloor>612 * (3 / 2 :: rat)\<rfloor> = 918" "\<lfloor>792 * (3 / 2 :: rat)\<rfloor> = 1188"
    by simp_all
  show ?thesis
    using layout_box_scaled_items_unscaled[OF h l, of int_ops, unfolded n]
    by (simp add: letter_world_def letter_page_def hello_item_def int_ops_def show_int_def d f)
qed

text \<open>
  Claim C5. The scenario of the specification: page 1 with the item "Hello" at
  transform [12,0,0,12,10,780] on a viewport of height 792, page 2 with the item "World"
  at [10,0,0,10,5,100] on a viewport of height 500. Text mode yields "Hello", two
  newlines, "World", and the trailing two newlines. Layout mode yields the container of
  page 1 with a node at left 10, top 12, font size 12 holding "Hello", followed by the
  container of page 2 with a node at left 5, top 400, font size 10 holding "World".
  Viewport widths and font names, which the scenario leaves open, are arbitrary.
\<close>

theorem scenario_outputs:
  "fst (extractTextFromPDF_text \<lparr>pdf = scenario w1 f1 w2 f2, calls = cs\<rparr>) =
     Inr ''Hello\<newline>\<newline>World\<newline>\<newline>''
   \<and> fst (extractTextFromPDF_layout int_ops \<lparr>pdf = scenario w1 f1 w2 f2, calls = cs\<rparr>) =
     Inr (page_tpl_0 @ nshow int_ops w1 @ page_tpl_1 @ ''792'' @ page_tpl_2
          @ item_tpl_0 @ ''10'' @ item_tpl_1 @ ''12'' @ item_tpl_2 @ ''12''
          @ item_tpl_3 @ f1 @ item_tpl_4 @ ''Hello'' @ item_tpl_5
          @ ''</div>''
          @ page_tpl_0 @ nshow int_ops w2 @ page_tpl_1 @ ''500'' @ page_tpl_2
          @ item_tpl_0 @ ''5'' @ item_tpl_1 @ ''400'' @ item_tpl_2 @ ''10''
          @ item_tpl_3 @ f2 @ item_tpl_4 @ ''World'' @ item_tpl_5
          @ ''</div>'')"
proof -
  have d: "digits 792 = ''792''" "digits 10 = ''10''" "digits 12 = ''12''"
    "digits 500 = ''500''" "digits 5 = ''5''" "digits 400 = ''400''"
    by code_simp+
  have plain: "fst (extractTextFromPDF_text \<lparr>pdf = scenario w1 f1 w2 f2, calls = cs\<rparr>) =
      Inr ''Hello\<newline>\<newline>World\<newline>\<newline>''"
    by (simp add: extractTextFromPDF_text_def text_pages.simps scenario_def
        doc_of_results_def scenario_page_def fixed_page_def hello_item_def world_item_def
        pdf_getPage_def page_getTextContent_def)
  have layout: "fst (extractTextFromPDF_layout int_ops \<lparr>pdf = scenario w1 f1 w2 f2, calls = cs\<rparr>) =
     Inr (page_tpl_0 @ nshow int_ops w1 @ page_tpl_1 @ ''792'' @ page_tpl_2
          @ item_tpl_0 @ ''10'' @ item_tpl_1 @ ''12'' @ item_tpl_2 @ ''12''
          @ item_tpl_3 @ f1 @ item_tpl_4 @ ''Hello'' @ item_tpl_5
          @ ''</div>''
          @ page_tpl_0 @ nshow int_ops w2 @ page_tpl_1 @ ''500'' @ page_tpl_2
          @ item_tpl_0 @ ''5'' @ item_tpl_1 @ ''400'' @ item_tpl_2 @ ''10''
          @ item_tpl_3 @ f2 @ item_tpl_4 @ ''World'' @ item_tpl_5
          @ ''</div>'')"
    by (simp add: extractTextFromPDF_layout_def layout_pages.simps scenario_def
        doc_of_results_def scenario_page_def fixed_page_def hello_item_def world_item_def
        pdf_getPage_def page_getViewport_def page_getTextContent_def
        page_html_def page_open_def item_html_def js_index_def
        int_ops_def show_int_def d)
  show ?thesis
    using plain layout by (rule conjI)
qed

section \<open>Failures\<close>

text \<open>
  The claim C4, as written, says that a failed fetch for page k makes extraction fail
  with an error that refers to page k, the engine's error being wrapped with the page
  index. The code rejects with the engine's own value: the fetch of page 1 failing in
  one document and the fetch of page 2 failing in another give the same rejection.
\<close>

theorem rejection_is_the_same_at_page_1_and_page_2:
  "fst (extractTextFromPDF_text (broken_world 1)) = Inl ''boom''
   \<and> fst (extractTextFromPDF_text (broken_world 2)) = Inl ''boom''
   \<and> fst (extractTextFromPDF_layout int_ops (broken_world 1)) = Inl ''boom''
   \<and> fst (extractTextFromPDF_layout int_ops (broken_world 2)) = Inl ''boom''"
  by (simp add: extractTextFromPDF_text_def text_pages.simps
      extractTextFromPDF_layout_def layout_pages.simps broken_world_def
      doc_of_results_def demo_page_def scenario_page_def fixed_page_def
      pdf_getPage_def page_getViewport_def page_getTextContent_def)

text \<open>
  Claim C4, amended. If the fetch of page k or of its text content is rejected with the
  value e, and the pages before k were fetched with their text content, then extraction
  is rejected with e itself, unchanged; no text is returned; and the last engine call
  issued is the one that failed, so that no page after k is asked for.
\<close>

theorem first_failure_rejects_with_engine_value:
  assumes "1 \<le> k" and "k \<le> numPages (pdf w)"
    and "\<forall>j. 1 \<le> j \<and> j < k \<longrightarrow>
           getPage (pdf w) j = Inr (P j) \<and> getTextContent (P j) = Inr (T j)"
    and "getPage (pdf w) k = Inl e \<or>
         (\<exists>p. getPage (pdf w) k = Inr p \<and> getTextContent p = Inl e)"
  shows "fst (extractTextFromPDF_text w) = Inl e
       \<and> calls (snd (extractTextFromPDF_text w)) =
           calls w @ concat (map (\<lambda>j. [GetPage j, GetTextContent j]) [1..<k])
           @ (case getPage (pdf w) k of Inl x \<Rightarrow> [GetPage k]
              | Inr p \<Rightarrow> [GetPage k, GetTextContent k])
       \<and> fst (extractTextFromPDF_layout N w) = Inl e
       \<and> calls (snd (extractTextFromPDF_layout N w)) =
           calls w @ concat (map (\<lambda>j. [GetPage j, GetViewport j (3 / 2), GetTextContent j]) [1..<k])
           @ (case getPage (pdf w) k of Inl x \<Rightarrow> [GetPage k]
              | Inr p \<Rightarrow> [GetPage k, GetViewport k (3 / 2), GetTextContent k])"
  using assms(4)
proof (elim disjE exE conjE)
  assume f: "getPage (pdf w) k = Inl e"
  show ?thesis
    unfolding extractTextFromPDF_text_def extractTextFromPDF_layout_def
      text_pages_fail_page[OF assms(1-3) f] layout_pages_fail_page[OF assms(1-3) f]
    by (simp add: f)
next
  fix p assume p: "getPage (pdf w) k = Inr p" and f: "getTextContent p = Inl e"
  show ?thesis
    unfolding extractTextFromPDF_text_def extractTextFromPDF_layout_def
      text_pages_fail_content[OF assms(1-3) p f] layout_pages_fail_content[OF assms(1-3) p f]
    by (simp add: p)
qed

theorem first_failure_rejects_with_engine_value_witness:
  "fst (extractTextFromPDF_text (broken_world 2)) = Inl ''boom''
   \<and> calls (snd (extractTextFromPDF_text (broken_world 2))) =
       [GetPage 1, GetTextContent 1, GetPage 2]
   \<and> fst (extractTextFromPDF_layout int_ops unreadable_world) = Inl ''boom''
   \<and> calls (snd (extractTextFromPDF_layout int_ops unreadable_world)) =
       [GetPage 1, GetViewport 1 (3 / 2), GetTextContent 1,
        GetPage 2, GetViewport 2 (3 / 2), GetTextContent 2]"
proof -
  have k: "(1::nat) \<le> 2" by simp
  have n: "2 \<le> numPages (pdf (broken_world 2))" "2 \<le> numPages (pdf unreadable_world)"
    by (simp_all add: broken_world_def unreadable_world_def doc_of_results_def)
  have b: "\<forall>j. 1 \<le> j \<and> j < 2 \<longrightarrow>
      getPage (pdf (broken_world 2)) j = Inr (demo_page j) \<and>
      getTextContent (demo_page j) = Inr (demo_items j)"
    by (auto simp: broken_world_def doc_of_results_def demo_page_def demo_items_def
        scenario_page_def fixed_page_def)
  have u: "\<forall>j. 1 \<le> j \<and> j < 2 \<longrightarrow>
      getPage (pdf unreadable_world) j = Inr (demo_page j) \<and>
      getTextContent (demo_page j) = Inr (demo_items j)"
    by (auto simp: unreadable_world_def doc_of_results_def demo_page_def demo_items_def
        scenario_page_def fixed_page_def)
  have fb: "getPage (pdf (broken_world 2)) 2 = Inl ''boom'' \<or>
      (\<exists>p. getPage (pdf (broken_world 2)) 2 = Inr p \<and> getTextContent p = Inl ''boom'')"
    by (simp add: broken_world_def doc_of_results_def)
  have fu: "getPage (pdf unreadable_world) 2 = Inl ''boom'' \<or>
      (\<exists>p. getPage (pdf unreadable_world) 2 = Inr p \<and> getTextContent p = Inl ''boom'')"
    by (simp add: unreadable_world_def doc_of_results_def unreadable_page_def)
  have r: "[1..<2] = [1::nat]"
    by code_simp
  show ?thesis
    using first_failure_rejects_with_engine_value[OF k n(1) b fb, of int_ops, unfolded r]
      first_failure_rejects_with_engine_value[OF k n(2) u fu, of int_ops, unfolded r]
    by (simp add: broken_world_def unreadable_world_def doc_of_results_def)
qed

end
